theory Spec2Isabelle
  imports Main "HOL-Library.Finite_Map" "HOL-Library.Multiset"
begin

section \<open>Data model\<close>

text \<open>
  The package works on protobuf messages through the reflection interface. What it uses
  of a message is: the populated fields (\<^verbatim>\<open>Range\<close>), the name of a field, the shape of
  its value (map, list, singular message, scalar), and \<^verbatim>\<open>Clear\<close>. A message is modelled
  in two ways. In this section it is a value: the list of its populated fields with
  their values (of a oneof group, the member that is set), where a value is what
  \<^verbatim>\<open>protoreflect.Value\<close> holds, with a sub-message or a map written out in place of the
  reference to it. The functions mutate the message in place; on values the model
  returns the new message. This is what a call computes on a message none of whose
  sub-messages and maps is reached twice. The section on the exact engine in place
  models a message as an object of a store, with references to its sub-messages and
  maps, and covers the messages in which these are shared. A call that panics returns
  \<open>Inl Panic\<close>.

  A singular field whose value is a message has the kind \<^verbatim>\<open>MessageKind\<close> or
  \<^verbatim>\<open>GroupKind\<close>; the exact engine recurses into the first kind only.

  \<^verbatim>\<open>Range\<close> visits the fields in an order that is not specified; the model visits them
  in the order of the list. On values each callback touches only the field (the map
  entry) it is called on, so the result does not depend on the order, unless a callback
  stops the iteration.

  A map whose entries have all been cleared stays in the list, with no entries: this is
  the state of the Go message (an empty map), which protobuf reports as not populated and
  compares equal to an absent field.
\<close>

datatype error = Panic

datatype scalar = SBool bool | SInt int | SString string

datatype MapKey = KBool bool | KInt int | KString string

datatype Kind = MessageKind | GroupKind

datatype message = Message (fields: "(string \<times> Value) list")
and Value =
    VScalar scalar
  | VMessage Kind message
  | VList "Value list"
  | VMap "(MapKey \<times> Value) list"

text \<open>
  \<open>Get\<close> reads a field by name, as \<^verbatim>\<open>Has\<close>/\<^verbatim>\<open>Get\<close> of the reflection interface do:
  \<open>None\<close> when the field is not populated.
\<close>

definition Get :: "message \<Rightarrow> string \<Rightarrow> Value option" where
  "Get msg name = map_of (fields msg) name"

text \<open>
  For the proofs: the messages in which every element of every list is a message. On
  them \<^verbatim>\<open>list.Get(i).Message()\<close> does not panic, whatever the mask.
\<close>

fun lists_hold_messages :: "message \<Rightarrow> bool"
  and value_lists_hold_messages :: "Value \<Rightarrow> bool" where
  "lists_hold_messages (Message fs) = list_all (\<lambda>(name, v). value_lists_hold_messages v) fs"
| "value_lists_hold_messages (VScalar s) = True"
| "value_lists_hold_messages (VMessage kd i) = lists_hold_messages i"
| "value_lists_hold_messages (VList l) =
     list_all (\<lambda>x. case x of VMessage kd i \<Rightarrow> lists_hold_messages i | _ \<Rightarrow> False) l"
| "value_lists_hold_messages (VMap xmap) = list_all (\<lambda>(mk, mv). value_lists_hold_messages mv) xmap"

text \<open>
  \<^verbatim>\<open>MapKey.String()\<close> belongs to the reflection library: the key itself for a string key,
  \<^verbatim>\<open>true\<close>/\<^verbatim>\<open>false\<close> for a boolean key, decimal digits for an integer key.
\<close>

fun dec_nat :: "nat \<Rightarrow> string" where
  "dec_nat n =
     (if n < 10 then [''0123456789'' ! n]
      else dec_nat (n div 10) @ [''0123456789'' ! (n mod 10)])"

declare dec_nat.simps [simp del]

fun MapKey_String :: "MapKey \<Rightarrow> string" where
  "MapKey_String (KString s) = s"
| "MapKey_String (KBool b) = (if b then ''true'' else ''false'')"
| "MapKey_String (KInt i) = (if i < 0 then CHR ''-'' # dec_nat (nat (- i)) else dec_nat (nat i))"

text \<open>
  \<^verbatim>\<open>type NestedMask map[string]NestedMask\<close>: a finite map from a segment to the subtree.
  \<^verbatim>\<open>len(m) == 0\<close> is \<open>children m = fmempty\<close>.
\<close>

datatype NestedMask = NestedMask (children: "(string, NestedMask) fmap")

text \<open>
  \<^verbatim>\<open>type WildcardNestedMask map[string]WildcardNestedMask\<close> has the same structure.
\<close>

type_synonym WildcardNestedMask = NestedMask

section \<open>Building a mask from paths\<close>

text \<open>
  The body of the loop over the letters of one path. \<open>cur\<close> (\<^verbatim>\<open>curr\<close> in the source) is
  the node the walk has reached, \<open>letters\<close> the segment read so far, the last argument the
  letters still to read. Go maps are references: what the walk adds below \<^verbatim>\<open>curr[key]\<close>
  is seen from \<^verbatim>\<open>curr\<close>, so the model stores the walked child back under \<open>key\<close>.
  The source ranges over the runes of the path and builds each key back from them; paths
  are ASCII strings, so a rune is a character and a key is the string between two dots.
\<close>

fun NestedMask_walk :: "NestedMask \<Rightarrow> string \<Rightarrow> string \<Rightarrow> NestedMask" where
  "NestedMask_walk cur letters [] =
     (if letters \<noteq> [] then
        (case fmlookup (children cur) letters of
           Some c \<Rightarrow> cur
         | None \<Rightarrow> NestedMask (fmupd letters (NestedMask fmempty) (children cur)))
      else cur)"
| "NestedMask_walk cur letters (letter # rest) =
     (if letter = CHR ''.'' then
        (if letters = [] then NestedMask_walk cur letters rest
         else
           (let key = letters;
                c = (case fmlookup (children cur) key of
                       Some c \<Rightarrow> c
                     | None \<Rightarrow> NestedMask fmempty)
            in NestedMask (fmupd key (NestedMask_walk c [] rest) (children cur))))
      else NestedMask_walk cur (letters @ [letter]) rest)"

definition NestedMaskFromPaths :: "string list \<Rightarrow> NestedMask" where
  "NestedMaskFromPaths paths =
     fold (\<lambda>path msk. NestedMask_walk msk [] path) paths (NestedMask fmempty)"

fun WildcardNestedMask_walk :: "WildcardNestedMask \<Rightarrow> string \<Rightarrow> string \<Rightarrow> WildcardNestedMask" where
  "WildcardNestedMask_walk cur letters [] =
     (if letters \<noteq> [] then
        (case fmlookup (children cur) letters of
           Some c \<Rightarrow> cur
         | None \<Rightarrow> NestedMask (fmupd letters (NestedMask fmempty) (children cur)))
      else cur)"
| "WildcardNestedMask_walk cur letters (letter # rest) =
     (if letter = CHR ''.'' then
        (if letters = [] then WildcardNestedMask_walk cur letters rest
         else
           (let key = letters;
                c = (case fmlookup (children cur) key of
                       Some c \<Rightarrow> c
                     | None \<Rightarrow> NestedMask fmempty)
            in NestedMask (fmupd key (WildcardNestedMask_walk c [] rest) (children cur))))
      else WildcardNestedMask_walk cur (letters @ [letter]) rest)"

definition WildcardNestedMaskFromPaths :: "string list \<Rightarrow> WildcardNestedMask" where
  "WildcardNestedMaskFromPaths paths =
     fold (\<lambda>path msk. WildcardNestedMask_walk msk [] path) paths (NestedMask fmempty)"

text \<open>
  For the proofs: what one path contributes is the list of its non-empty segments, and
  the walk inserts that list into the tree. \<open>segments\<close> reads a path the way the loop
  does; \<open>insert_path\<close> creates the missing nodes along a list of segments and keeps the
  nodes that are there; \<open>walk_insert_path\<close> below relates them to the walk.
\<close>

fun segments :: "string \<Rightarrow> string \<Rightarrow> string list" where
  "segments letters [] = (if letters \<noteq> [] then [letters] else [])"
| "segments letters (letter # rest) =
     (if letter = CHR ''.'' then
        (if letters = [] then segments letters rest else letters # segments [] rest)
      else segments (letters @ [letter]) rest)"

fun insert_path :: "string list \<Rightarrow> NestedMask \<Rightarrow> NestedMask" where
  "insert_path [] m = m"
| "insert_path (k # ks) m =
     NestedMask (fmupd k
       (insert_path ks (case fmlookup (children m) k of Some c \<Rightarrow> c | None \<Rightarrow> NestedMask fmempty))
       (children m))"

definition add_path :: "string \<Rightarrow> NestedMask \<Rightarrow> NestedMask" where
  "add_path = (\<lambda>path. insert_path (segments [] path))"

fun has_path :: "NestedMask \<Rightarrow> string list \<Rightarrow> bool" where
  "has_path m [] = True"
| "has_path m (k # ks) = (case fmlookup (children m) k of Some c \<Rightarrow> has_path c ks | None \<Rightarrow> False)"

section \<open>Iteration with a callback\<close>

text \<open>
  \<^verbatim>\<open>Range\<close> of a message or of a map calls the callback on each item and stops when the
  callback returns false. The callback may only mutate the item it is called on; it
  returns whether to go on, and the item as it leaves it (\<open>None\<close> when it cleared it).
  A panic in the callback ends everything. The \<^verbatim>\<open>for\<close> loop over a list is the same
  iteration with a callback that always goes on.
\<close>

fun Range_iter :: "('a \<Rightarrow> error + bool \<times> 'a option) \<Rightarrow> 'a list \<Rightarrow> error + 'a list" where
  "Range_iter f [] = Inr []"
| "Range_iter f (x # xs) =
     (case f x of
        Inl e \<Rightarrow> Inl e
      | Inr (cont, x') \<Rightarrow>
          if cont then
            (case Range_iter f xs of
               Inl e \<Rightarrow> Inl e
             | Inr ys \<Rightarrow> Inr (case x' of None \<Rightarrow> ys | Some y \<Rightarrow> y # ys))
          else Inr (case x' of None \<Rightarrow> xs | Some y \<Rightarrow> y # xs))"

lemma Range_iter_cong [fundef_cong]:
  "xs = ys \<Longrightarrow> (\<And>x. x \<in> set ys \<Longrightarrow> f x = g x) \<Longrightarrow> Range_iter f xs = Range_iter g ys"
  by (induction ys arbitrary: xs) (auto split: sum.splits)

text \<open>
  For the proofs: a callback on named items (fields, map entries) that always goes on
  and never renames the item it is called on.
\<close>

definition keeps_key :: "('k \<times> 'v \<Rightarrow> error + bool \<times> ('k \<times> 'v) option) \<Rightarrow> ('k \<times> 'v) list \<Rightarrow> bool" where
  "keeps_key f xs =
     (\<forall>x\<in>set xs. \<forall>c y. f x = Inr (c, y) \<longrightarrow> c \<and> (\<forall>z. y = Some z \<longrightarrow> fst z = fst x))"

section \<open>The exact engine, on values\<close>

text \<open>
  The dispatch of the source is on the field descriptor (\<^verbatim>\<open>IsMap\<close>, \<^verbatim>\<open>IsList\<close>,
  \<^verbatim>\<open>Kind() == MessageKind\<close>, in this order); the value of a field has the shape its
  descriptor says, so the model reads the shape off the value, and the kind of a
  singular message off its tag. \<^verbatim>\<open>list.Get(i).Message()\<close> panics on an element that is
  not a message.
\<close>

fun NestedMask_Filter :: "NestedMask \<Rightarrow> message \<Rightarrow> error + message" where
  "NestedMask_Filter msk (Message fs) =
     (if children msk = fmempty then Inr (Message fs)
      else map_sum id Message (Range_iter (\<lambda>(name, v).
        case fmlookup (children msk) name of
          Some m \<Rightarrow>
            if children m = fmempty then Inr (True, Some (name, v))
            else (case v of
              VMap xmap \<Rightarrow>
                (case Range_iter (\<lambda>(mk, mv).
                   case fmlookup (children m) (MapKey_String mk) of
                     Some mi \<Rightarrow>
                       (case mv of
                          VMessage kd i \<Rightarrow>
                            if children mi \<noteq> fmempty then
                              (case NestedMask_Filter mi i of
                                 Inl e \<Rightarrow> Inl e
                               | Inr i' \<Rightarrow> Inr (True, Some (mk, VMessage kd i')))
                            else Inr (True, Some (mk, mv))
                        | _ \<Rightarrow> Inr (True, Some (mk, mv)))
                   | None \<Rightarrow> Inr (True, None)) xmap of
                   Inl e \<Rightarrow> Inl e
                 | Inr xmap' \<Rightarrow> Inr (True, Some (name, VMap xmap')))
            | VList l \<Rightarrow>
                (case Range_iter (\<lambda>x.
                   case x of
                     VMessage kd i \<Rightarrow>
                       (case NestedMask_Filter m i of
                          Inl e \<Rightarrow> Inl e
                        | Inr i' \<Rightarrow> Inr (True, Some (VMessage kd i')))
                   | _ \<Rightarrow> Inl Panic) l of
                   Inl e \<Rightarrow> Inl e
                 | Inr l' \<Rightarrow> Inr (True, Some (name, VList l')))
            | VMessage kd i \<Rightarrow>
                if kd = MessageKind then
                  (case NestedMask_Filter m i of
                     Inl e \<Rightarrow> Inl e
                   | Inr i' \<Rightarrow> Inr (True, Some (name, VMessage kd i')))
                else Inr (True, Some (name, v))
            | VScalar s \<Rightarrow> Inr (True, Some (name, v)))
        | None \<Rightarrow> Inr (True, None)) fs))"

fun NestedMask_Prune :: "NestedMask \<Rightarrow> message \<Rightarrow> error + message" where
  "NestedMask_Prune msk (Message fs) =
     (if children msk = fmempty then Inr (Message fs)
      else map_sum id Message (Range_iter (\<lambda>(name, v).
        case fmlookup (children msk) name of
          Some m \<Rightarrow>
            if children m = fmempty then Inr (True, None)
            else (case v of
              VMap xmap \<Rightarrow>
                (case Range_iter (\<lambda>(mk, mv).
                   case fmlookup (children m) (MapKey_String mk) of
                     Some mi \<Rightarrow>
                       (case mv of
                          VMessage kd i \<Rightarrow>
                            if children mi \<noteq> fmempty then
                              (case NestedMask_Prune mi i of
                                 Inl e \<Rightarrow> Inl e
                               | Inr i' \<Rightarrow> Inr (True, Some (mk, VMessage kd i')))
                            else Inr (True, None)
                        | _ \<Rightarrow> Inr (True, None))
                   | None \<Rightarrow> Inr (True, Some (mk, mv))) xmap of
                   Inl e \<Rightarrow> Inl e
                 | Inr xmap' \<Rightarrow> Inr (True, Some (name, VMap xmap')))
            | VList l \<Rightarrow>
                (case Range_iter (\<lambda>x.
                   case x of
                     VMessage kd i \<Rightarrow>
                       (case NestedMask_Prune m i of
                          Inl e \<Rightarrow> Inl e
                        | Inr i' \<Rightarrow> Inr (True, Some (VMessage kd i')))
                   | _ \<Rightarrow> Inl Panic) l of
                   Inl e \<Rightarrow> Inl e
                 | Inr l' \<Rightarrow> Inr (True, Some (name, VList l')))
            | VMessage kd i \<Rightarrow>
                if kd = MessageKind then
                  (case NestedMask_Prune m i of
                     Inl e \<Rightarrow> Inl e
                   | Inr i' \<Rightarrow> Inr (True, Some (name, VMessage kd i')))
                else Inr (True, Some (name, v))
            | VScalar s \<Rightarrow> Inr (True, Some (name, v)))
        | None \<Rightarrow> Inr (True, Some (name, v))) fs))"

text \<open>
  For the proofs, the three callbacks of \<open>NestedMask_Filter\<close> and of \<open>NestedMask_Prune\<close>
  by name: on a map entry, on a list element, on a field. \<open>NestedMask_Filter_fields\<close> and
  \<open>NestedMask_Prune_fields\<close> below show that they are the callbacks of the definitions.
\<close>

definition Filter_entry :: "NestedMask \<Rightarrow> MapKey \<times> Value \<Rightarrow> error + bool \<times> (MapKey \<times> Value) option" where
  "Filter_entry m = (\<lambda>(mk, mv).
     case fmlookup (children m) (MapKey_String mk) of
       Some mi \<Rightarrow>
         (case mv of
            VMessage kd i \<Rightarrow>
              if children mi \<noteq> fmempty then
                (case NestedMask_Filter mi i of
                   Inl e \<Rightarrow> Inl e
                 | Inr i' \<Rightarrow> Inr (True, Some (mk, VMessage kd i')))
              else Inr (True, Some (mk, mv))
          | _ \<Rightarrow> Inr (True, Some (mk, mv)))
     | None \<Rightarrow> Inr (True, None))"

definition Filter_elem :: "NestedMask \<Rightarrow> Value \<Rightarrow> error + bool \<times> Value option" where
  "Filter_elem m = (\<lambda>x.
     case x of
       VMessage kd i \<Rightarrow>
         (case NestedMask_Filter m i of
            Inl e \<Rightarrow> Inl e
          | Inr i' \<Rightarrow> Inr (True, Some (VMessage kd i')))
     | _ \<Rightarrow> Inl Panic)"

definition Filter_field :: "NestedMask \<Rightarrow> string \<times> Value \<Rightarrow> error + bool \<times> (string \<times> Value) option" where
  "Filter_field msk = (\<lambda>(name, v).
     case fmlookup (children msk) name of
       Some m \<Rightarrow>
         if children m = fmempty then Inr (True, Some (name, v))
         else (case v of
           VMap xmap \<Rightarrow>
             (case Range_iter (Filter_entry m) xmap of
                Inl e \<Rightarrow> Inl e
              | Inr xmap' \<Rightarrow> Inr (True, Some (name, VMap xmap')))
         | VList l \<Rightarrow>
             (case Range_iter (Filter_elem m) l of
                Inl e \<Rightarrow> Inl e
              | Inr l' \<Rightarrow> Inr (True, Some (name, VList l')))
         | VMessage kd i \<Rightarrow>
             if kd = MessageKind then
               (case NestedMask_Filter m i of
                  Inl e \<Rightarrow> Inl e
                | Inr i' \<Rightarrow> Inr (True, Some (name, VMessage kd i')))
             else Inr (True, Some (name, v))
         | VScalar s \<Rightarrow> Inr (True, Some (name, v)))
     | None \<Rightarrow> Inr (True, None))"

definition Prune_entry :: "NestedMask \<Rightarrow> MapKey \<times> Value \<Rightarrow> error + bool \<times> (MapKey \<times> Value) option" where
  "Prune_entry m = (\<lambda>(mk, mv).
     case fmlookup (children m) (MapKey_String mk) of
       Some mi \<Rightarrow>
         (case mv of
            VMessage kd i \<Rightarrow>
              if children mi \<noteq> fmempty then
                (case NestedMask_Prune mi i of
                   Inl e \<Rightarrow> Inl e
                 | Inr i' \<Rightarrow> Inr (True, Some (mk, VMessage kd i')))
              else Inr (True, None)
          | _ \<Rightarrow> Inr (True, None))
     | None \<Rightarrow> Inr (True, Some (mk, mv)))"

definition Prune_elem :: "NestedMask \<Rightarrow> Value \<Rightarrow> error + bool \<times> Value option" where
  "Prune_elem m = (\<lambda>x.
     case x of
       VMessage kd i \<Rightarrow>
         (case NestedMask_Prune m i of
            Inl e \<Rightarrow> Inl e
          | Inr i' \<Rightarrow> Inr (True, Some (VMessage kd i')))
     | _ \<Rightarrow> Inl Panic)"

definition Prune_field :: "NestedMask \<Rightarrow> string \<times> Value \<Rightarrow> error + bool \<times> (string \<times> Value) option" where
  "Prune_field msk = (\<lambda>(name, v).
     case fmlookup (children msk) name of
       Some m \<Rightarrow>
         if children m = fmempty then Inr (True, None)
         else (case v of
           VMap xmap \<Rightarrow>
             (case Range_iter (Prune_entry m) xmap of
                Inl e \<Rightarrow> Inl e
              | Inr xmap' \<Rightarrow> Inr (True, Some (name, VMap xmap')))
         | VList l \<Rightarrow>
             (case Range_iter (Prune_elem m) l of
                Inl e \<Rightarrow> Inl e
              | Inr l' \<Rightarrow> Inr (True, Some (name, VList l')))
         | VMessage kd i \<Rightarrow>
             if kd = MessageKind then
               (case NestedMask_Prune m i of
                  Inl e \<Rightarrow> Inl e
                | Inr i' \<Rightarrow> Inr (True, Some (name, VMessage kd i')))
             else Inr (True, Some (name, v))
         | VScalar s \<Rightarrow> Inr (True, Some (name, v)))
     | None \<Rightarrow> Inr (True, Some (name, v)))"

definition Filter :: "message \<Rightarrow> string list \<Rightarrow> error + message" where
  "Filter msg paths = NestedMask_Filter (NestedMaskFromPaths paths) msg"

definition Prune :: "message \<Rightarrow> string list \<Rightarrow> error + message" where
  "Prune msg paths = NestedMask_Prune (NestedMaskFromPaths paths) msg"

section \<open>The wildcard engine\<close>

text \<open>
  \<open>filterField\<close> and \<open>filterMapKey\<close> take the field (the map entry) they work on and
  return their boolean result together with the field (the entry) as they leave it.
  In \<open>filterField\<close> the map entries are looked up in \<open>msk\<close>, the mask the method was called
  on, as the source does.
\<close>

function WildcardNestedMask_Filter :: "WildcardNestedMask \<Rightarrow> message \<Rightarrow> error + message"
  and filterField ::
    "WildcardNestedMask \<Rightarrow> string \<times> Value \<Rightarrow> bool \<Rightarrow> bool \<Rightarrow> error + bool \<times> (string \<times> Value)"
  and filterMapKey ::
    "WildcardNestedMask \<Rightarrow> MapKey \<times> Value \<Rightarrow> bool \<Rightarrow> error + bool \<times> (MapKey \<times> Value)"
where
  "WildcardNestedMask_Filter msk (Message fs) =
     (if children msk = fmempty then Inr (Message fs)
      else map_sum id Message (Range_iter (\<lambda>fd.
        case filterField msk fd False False of
          Inl e \<Rightarrow> Inl e
        | Inr (r1, fd1) \<Rightarrow>
            if r1 then Inr (True, Some fd1)
            else (case filterField msk fd1 True False of
                    Inl e \<Rightarrow> Inl e
                  | Inr (r2, fd2) \<Rightarrow>
                      if r2 then Inr (True, Some fd2)
                      else Inr (False, None))) fs))"
| "filterField msk (name, v) wildcard pruning =
     (let key = (if wildcard then ''*'' else name) in
      case fmlookup (children msk) key of
        Some m \<Rightarrow>
          if children m = fmempty then Inr (True, (name, v))
          else (case v of
            VMap xmap \<Rightarrow>
              (case Range_iter (\<lambda>kv.
                 case filterMapKey msk kv False of
                   Inl e \<Rightarrow> Inl e
                 | Inr (r1, kv1) \<Rightarrow>
                     if r1 then Inr (True, if pruning then None else Some kv1)
                     else (case filterMapKey msk kv1 True of
                             Inl e \<Rightarrow> Inl e
                           | Inr (r2, kv2) \<Rightarrow>
                               if r2 then Inr (True, if pruning then None else Some kv2)
                               else Inr (False, if \<not> pruning then None else Some kv2))) xmap of
                 Inl e \<Rightarrow> Inl e
               | Inr xmap' \<Rightarrow> Inr (True, (name, VMap xmap')))
          | VList l \<Rightarrow>
              (case Range_iter (\<lambda>x.
                 case x of
                   VMessage kd i \<Rightarrow>
                     (case WildcardNestedMask_Filter m i of
                        Inl e \<Rightarrow> Inl e
                      | Inr i' \<Rightarrow> Inr (True, Some (VMessage kd i')))
                 | _ \<Rightarrow> Inl Panic) l of
                 Inl e \<Rightarrow> Inl e
               | Inr l' \<Rightarrow> Inr (True, (name, VList l')))
          | VMessage kd i \<Rightarrow>
              if kd = MessageKind then
                (case WildcardNestedMask_Filter m i of
                   Inl e \<Rightarrow> Inl e
                 | Inr i' \<Rightarrow> Inr (True, (name, VMessage kd i')))
              else Inr (True, (name, v))
          | VScalar s \<Rightarrow> Inr (True, (name, v)))
      | None \<Rightarrow> Inr (True, (name, v)))"
| "filterMapKey msk (mk, mv) wildcard =
     (let key = (if wildcard then ''*'' else MapKey_String mk) in
      case fmlookup (children msk) key of
        Some m \<Rightarrow>
          (case mv of
             VMessage kd i \<Rightarrow>
               if children m \<noteq> fmempty then
                 (case WildcardNestedMask_Filter m i of
                    Inl e \<Rightarrow> Inl e
                  | Inr i' \<Rightarrow> Inr (True, (mk, VMessage kd i')))
               else Inr (True, (mk, mv))
           | _ \<Rightarrow> Inr (True, (mk, mv)))
      | None \<Rightarrow> Inr (True, (mk, mv)))"
  by pat_completeness auto

text \<open>
  Both functions return true on every path. This is what makes the recursion terminate:
  the second call, on the field the first call left, is never reached.
\<close>

lemma filterField_dom_true:
  "WildcardNestedMask_Filter_filterField_filterMapKey_dom (Inr (Inl (msk, fd, w, p))) \<Longrightarrow>
   filterField msk fd w p = Inr (r, fd') \<Longrightarrow> r"
  by (cases fd)
    (auto simp: filterField.psimps Let_def split: option.splits if_splits Value.splits sum.splits)

lemma filterMapKey_dom_true:
  "WildcardNestedMask_Filter_filterField_filterMapKey_dom (Inr (Inr (msk, kv, w))) \<Longrightarrow>
   filterMapKey msk kv w = Inr (r, kv') \<Longrightarrow> r"
  by (cases kv)
    (auto simp: filterMapKey.psimps Let_def split: option.splits if_splits Value.splits sum.splits)

lemma size_snd_mem:
  fixes xs :: "('k \<times> Value) list"
  shows "x \<in> set xs \<Longrightarrow> size (snd x) < Suc (size_list (size_prod (\<lambda>x. 0) size) xs)"
  by (induction xs) (auto simp: less_Suc_eq_le)

lemma size_msg_mem:
  "VMessage kd i \<in> set l \<Longrightarrow> size i < Suc (size_list size l)"
  by (induction l) (auto simp: less_Suc_eq_le)

termination WildcardNestedMask_Filter
proof (relation "measure (\<lambda>x. case x of
           Inl (msk, msg) \<Rightarrow> size msg
         | Inr (Inl (msk, fd, w, p)) \<Rightarrow> size (snd fd)
         | Inr (Inr (msk, kv, w)) \<Rightarrow> size (snd kv))", goal_cases)
  case 1
  show ?case by simp
next
  case (2 msk fs x)
  then show ?case by (simp add: size_snd_mem)
next
  case (3 msk fs x b r1 fd1)
  then show ?case using filterField_dom_true by metis
next
  case 4
  then show ?case by simp
next
  case 5
  then show ?case by (simp add: size_msg_mem)
next
  case 6
  then show ?case by (simp add: size_snd_mem)
next
  case (7 msk name v wildcard pruning key m xmap kv b r1 kv1)
  then show ?case using filterMapKey_dom_true by metis
next
  case 8
  then show ?case by simp
qed

text \<open>
  For the proofs, the callbacks of the wildcard engine by name (\<open>filterField_cases\<close> and
  \<open>WildcardNestedMask_Filter_fields\<close> below relate them to the definitions).
\<close>

definition filterField_entry ::
  "WildcardNestedMask \<Rightarrow> bool \<Rightarrow> MapKey \<times> Value \<Rightarrow> error + bool \<times> (MapKey \<times> Value) option" where
  "filterField_entry msk pruning = (\<lambda>kv.
     case filterMapKey msk kv False of
       Inl e \<Rightarrow> Inl e
     | Inr (r1, kv1) \<Rightarrow>
         if r1 then Inr (True, if pruning then None else Some kv1)
         else (case filterMapKey msk kv1 True of
                 Inl e \<Rightarrow> Inl e
               | Inr (r2, kv2) \<Rightarrow>
                   if r2 then Inr (True, if pruning then None else Some kv2)
                   else Inr (False, if \<not> pruning then None else Some kv2)))"

definition filterField_elem :: "WildcardNestedMask \<Rightarrow> Value \<Rightarrow> error + bool \<times> Value option" where
  "filterField_elem m = (\<lambda>x.
     case x of
       VMessage kd i \<Rightarrow>
         (case WildcardNestedMask_Filter m i of
            Inl e \<Rightarrow> Inl e
          | Inr i' \<Rightarrow> Inr (True, Some (VMessage kd i')))
     | _ \<Rightarrow> Inl Panic)"

definition Wildcard_Filter_field ::
  "WildcardNestedMask \<Rightarrow> string \<times> Value \<Rightarrow> error + bool \<times> (string \<times> Value) option" where
  "Wildcard_Filter_field msk = (\<lambda>fd.
     case filterField msk fd False False of
       Inl e \<Rightarrow> Inl e
     | Inr (r1, fd1) \<Rightarrow>
         if r1 then Inr (True, Some fd1)
         else (case filterField msk fd1 True False of
                 Inl e \<Rightarrow> Inl e
               | Inr (r2, fd2) \<Rightarrow>
                   if r2 then Inr (True, Some fd2)
                   else Inr (False, None)))"

definition WildcardNestedMask_Prune :: "WildcardNestedMask \<Rightarrow> message \<Rightarrow> error + message" where
  "WildcardNestedMask_Prune msk msg =
     (if children msk = fmempty then Inr msg
      else map_sum id Message (Range_iter (\<lambda>fd.
        case filterField msk fd False True of
          Inl e \<Rightarrow> Inl e
        | Inr (r1, fd1) \<Rightarrow>
            if r1 then Inr (True, None)
            else (case filterField msk fd1 True True of
                    Inl e \<Rightarrow> Inl e
                  | Inr (r2, fd2) \<Rightarrow>
                      if r2 then Inr (True, None)
                      else Inr (False, Some fd2))) (fields msg)))"

definition WildcardFilter :: "message \<Rightarrow> string list \<Rightarrow> error + message" where
  "WildcardFilter msg paths = WildcardNestedMask_Filter (WildcardNestedMaskFromPaths paths) msg"

definition WildcardPrune :: "message \<Rightarrow> string list \<Rightarrow> error + message" where
  "WildcardPrune msg paths = WildcardNestedMask_Prune (WildcardNestedMaskFromPaths paths) msg"

section \<open>The exact engine, in place\<close>

text \<open>
  \<^verbatim>\<open>NestedMask.Filter\<close> and \<^verbatim>\<open>NestedMask.Prune\<close> return nothing: they clear fields of
  the message they are given, and entries of its maps, in place. A Go message holds its
  sub-messages and its maps by reference, so one sub-message or one map can be the value
  of several fields, and what is cleared in it through one field is cleared for all of
  them. This section embeds the two methods on a store of objects, where this shows.
  The functions \<open>NestedMask_Filter\<close> and \<open>NestedMask_Prune\<close> above are the same methods
  on the value of a message, which is what they compute when no object of the message
  is reached twice.

  An object of the store is a message (its populated fields with their values) or a map
  (its entries); its address is its index in the store. A value is a scalar, a reference
  to a message (together with the kind of the field, \<^verbatim>\<open>fd.Kind()\<close>), a list of values, or
  a reference to a map. A list is kept as a value: the package never changes a list, it
  only follows the references in it.
\<close>

type_synonym addr = nat

datatype hvalue =
    HScalar scalar
  | HMessage Kind addr
  | HList "hvalue list"
  | HMap addr

datatype object =
    OMessage "(string \<times> hvalue) list"
  | OMap "(MapKey \<times> hvalue) list"

type_synonym heap = "object list"

definition object_at :: "heap \<Rightarrow> addr \<Rightarrow> object option" where
  "object_at h a = (if a < length h then Some (h ! a) else None)"

text \<open>
  \<^verbatim>\<open>Has\<close>/\<^verbatim>\<open>Get\<close> and \<^verbatim>\<open>Clear\<close> of a message, and of a map, on the store. \<^verbatim>\<open>Clear\<close> removes
  the binding from the object it is called on; the object the binding referred to stays
  in the store as it is.
\<close>

definition Get_inplace :: "heap \<Rightarrow> addr \<Rightarrow> string \<Rightarrow> hvalue option" where
  "Get_inplace h a name =
     (case object_at h a of Some (OMessage fs) \<Rightarrow> map_of fs name | _ \<Rightarrow> None)"

definition Clear_inplace :: "heap \<Rightarrow> addr \<Rightarrow> string \<Rightarrow> heap" where
  "Clear_inplace h a name =
     (case object_at h a of
        Some (OMessage fs) \<Rightarrow> h[a := OMessage (filter (\<lambda>x. fst x \<noteq> name) fs)]
      | _ \<Rightarrow> h)"

definition Map_Get :: "heap \<Rightarrow> addr \<Rightarrow> MapKey \<Rightarrow> hvalue option" where
  "Map_Get h a mk =
     (case object_at h a of Some (OMap es) \<Rightarrow> map_of es mk | _ \<Rightarrow> None)"

definition Map_Clear :: "heap \<Rightarrow> addr \<Rightarrow> MapKey \<Rightarrow> heap" where
  "Map_Clear h a mk =
     (case object_at h a of
        Some (OMap es) \<Rightarrow> h[a := OMap (filter (\<lambda>x. fst x \<noteq> mk) es)]
      | _ \<Rightarrow> h)"

text \<open>
  \<^verbatim>\<open>Range\<close> with a callback that mutates the store: the callback is run on each item in
  turn, on the store as the callbacks before it left it. None of the callbacks of the
  exact engine stops the iteration. The same function is the \<^verbatim>\<open>for\<close> loop over a list.
\<close>

fun for_each :: "('x \<Rightarrow> heap \<Rightarrow> error + heap) \<Rightarrow> 'x list \<Rightarrow> heap \<Rightarrow> error + heap" where
  "for_each f [] h = Inr h"
| "for_each f (x # xs) h =
     (case f x h of
        Inl e \<Rightarrow> Inl e
      | Inr h' \<Rightarrow> for_each f xs h')"

lemma for_each_cong [fundef_cong]:
  "xs = ys \<Longrightarrow> h = h' \<Longrightarrow> (\<And>x s. x \<in> set ys \<Longrightarrow> f x s = g x s) \<Longrightarrow>
   for_each f xs h = for_each g ys h'"
  by (induction ys arbitrary: xs h h') (auto split: sum.splits)

text \<open>
  Each recursive call of the two methods is on a subtree of the mask, so they return
  whatever the store holds, also when a message is reached from itself.
\<close>

lemma size_child:
  assumes "fmlookup (children msk) k = Some m"
  shows "size m < size msk"
proof (cases msk)
  case (NestedMask cs)
  let ?f = "\<lambda>x. Suc (case x of (a, b) \<Rightarrow> size b)"
  from assms NestedMask have "(k, m) \<in> fset (fset_of_fmap cs)"
    by (simp add: fset_of_fmap_iff)
  then have "?f (k, m) \<le> sum ?f (fset (fset_of_fmap cs))"
    by (intro member_le_sum) auto
  with NestedMask show ?thesis by simp
qed

lemma size_grandchild:
  "fmlookup (children msk) k = Some m \<Longrightarrow> fmlookup (children m) k' = Some mi \<Longrightarrow>
   size mi < size msk"
  using size_child[of msk k m] size_child[of m k' mi] by simp

text \<open>
  The fields (the entries) visited by \<^verbatim>\<open>Range\<close> are those populated when it starts and
  still populated when their turn comes; the callback gets the value the field (the
  entry) has at that moment. The dispatch of the source is on the field descriptor
  (\<^verbatim>\<open>IsMap\<close>, \<^verbatim>\<open>IsList\<close>, \<^verbatim>\<open>Kind() == MessageKind\<close>, in this order); the model reads the
  shape off the value, and the kind off the reference. \<^verbatim>\<open>list.Get(i).Message()\<close> panics
  on a list element that is not a message.
\<close>

function NestedMask_Filter_inplace :: "NestedMask \<Rightarrow> addr \<Rightarrow> heap \<Rightarrow> error + heap" where
  "NestedMask_Filter_inplace msk a h =
     (if children msk = fmempty then Inr h
      else case object_at h a of
        Some (OMessage fs) \<Rightarrow>
          for_each (\<lambda>name h.
            case Get_inplace h a name of
              None \<Rightarrow> Inr h
            | Some v \<Rightarrow>
                (case fmlookup (children msk) name of
                   Some m \<Rightarrow>
                     if children m = fmempty then Inr h
                     else (case v of
                       HMap xmap \<Rightarrow>
                         (case object_at h xmap of
                            Some (OMap es) \<Rightarrow>
                              for_each (\<lambda>mk h.
                                case Map_Get h xmap mk of
                                  None \<Rightarrow> Inr h
                                | Some mv \<Rightarrow>
                                    (case fmlookup (children m) (MapKey_String mk) of
                                       Some mi \<Rightarrow>
                                         (case mv of
                                            HMessage kd i \<Rightarrow>
                                              if children mi \<noteq> fmempty then
                                                NestedMask_Filter_inplace mi i h
                                              else Inr h
                                          | _ \<Rightarrow> Inr h)
                                     | None \<Rightarrow> Inr (Map_Clear h xmap mk)))
                                (map fst es) h
                          | _ \<Rightarrow> Inr h)
                     | HList l \<Rightarrow>
                         for_each (\<lambda>x h.
                           case x of
                             HMessage kd i \<Rightarrow> NestedMask_Filter_inplace m i h
                           | _ \<Rightarrow> Inl Panic) l h
                     | HMessage kd i \<Rightarrow>
                         if kd = MessageKind then NestedMask_Filter_inplace m i h
                         else Inr h
                     | HScalar s \<Rightarrow> Inr h)
                 | None \<Rightarrow> Inr (Clear_inplace h a name)))
            (map fst fs) h
      | _ \<Rightarrow> Inr h)"
  by pat_completeness auto

termination NestedMask_Filter_inplace
proof (relation "measure (\<lambda>(msk, a, h). size msk)", goal_cases)
  case 1
  show ?case by simp
next
  case 2
  then show ?case by (auto dest: size_child size_grandchild)
next
  case 3
  then show ?case by (auto dest: size_child size_grandchild)
next
  case 4
  then show ?case by (auto dest: size_child size_grandchild)
qed

function NestedMask_Prune_inplace :: "NestedMask \<Rightarrow> addr \<Rightarrow> heap \<Rightarrow> error + heap" where
  "NestedMask_Prune_inplace msk a h =
     (if children msk = fmempty then Inr h
      else case object_at h a of
        Some (OMessage fs) \<Rightarrow>
          for_each (\<lambda>name h.
            case Get_inplace h a name of
              None \<Rightarrow> Inr h
            | Some v \<Rightarrow>
                (case fmlookup (children msk) name of
                   Some m \<Rightarrow>
                     if children m = fmempty then Inr (Clear_inplace h a name)
                     else (case v of
                       HMap xmap \<Rightarrow>
                         (case object_at h xmap of
                            Some (OMap es) \<Rightarrow>
                              for_each (\<lambda>mk h.
                                case Map_Get h xmap mk of
                                  None \<Rightarrow> Inr h
                                | Some mv \<Rightarrow>
                                    (case fmlookup (children m) (MapKey_String mk) of
                                       Some mi \<Rightarrow>
                                         (case mv of
                                            HMessage kd i \<Rightarrow>
                                              if children mi \<noteq> fmempty then
                                                NestedMask_Prune_inplace mi i h
                                              else Inr (Map_Clear h xmap mk)
                                          | _ \<Rightarrow> Inr (Map_Clear h xmap mk))
                                     | None \<Rightarrow> Inr h))
                                (map fst es) h
                          | _ \<Rightarrow> Inr h)
                     | HList l \<Rightarrow>
                         for_each (\<lambda>x h.
                           case x of
                             HMessage kd i \<Rightarrow> NestedMask_Prune_inplace m i h
                           | _ \<Rightarrow> Inl Panic) l h
                     | HMessage kd i \<Rightarrow>
                         if kd = MessageKind then NestedMask_Prune_inplace m i h
                         else Inr h
                     | HScalar s \<Rightarrow> Inr h)
                 | None \<Rightarrow> Inr h))
            (map fst fs) h
      | _ \<Rightarrow> Inr h)"
  by pat_completeness auto

termination NestedMask_Prune_inplace
proof (relation "measure (\<lambda>(msk, a, h). size msk)", goal_cases)
  case 1
  show ?case by simp
next
  case 2
  then show ?case by (auto dest: size_child size_grandchild)
next
  case 3
  then show ?case by (auto dest: size_child size_grandchild)
next
  case 4
  then show ?case by (auto dest: size_child size_grandchild)
qed

text \<open>
  \<^verbatim>\<open>Filter(msg, paths)\<close> and \<^verbatim>\<open>Prune(msg, paths)\<close> on the message at address \<open>a\<close>.
\<close>

definition Filter_inplace :: "addr \<Rightarrow> string list \<Rightarrow> heap \<Rightarrow> error + heap" where
  "Filter_inplace a paths h = NestedMask_Filter_inplace (NestedMaskFromPaths paths) a h"

definition Prune_inplace :: "addr \<Rightarrow> string list \<Rightarrow> heap \<Rightarrow> error + heap" where
  "Prune_inplace a paths h = NestedMask_Prune_inplace (NestedMaskFromPaths paths) a h"

text \<open>
  For the proofs, the three callbacks of each method by name, as for the engine on
  values. \<open>NestedMask_Filter_inplace_unfold\<close> and \<open>NestedMask_Prune_inplace_unfold\<close> below
  show that they are the callbacks of the definitions.
\<close>

definition Filter_entry_inplace ::
  "NestedMask \<Rightarrow> addr \<Rightarrow> MapKey \<Rightarrow> heap \<Rightarrow> error + heap" where
  "Filter_entry_inplace m xmap = (\<lambda>mk h.
     case Map_Get h xmap mk of
       None \<Rightarrow> Inr h
     | Some mv \<Rightarrow>
         (case fmlookup (children m) (MapKey_String mk) of
            Some mi \<Rightarrow>
              (case mv of
                 HMessage kd i \<Rightarrow>
                   if children mi \<noteq> fmempty then
                     NestedMask_Filter_inplace mi i h
                   else Inr h
               | _ \<Rightarrow> Inr h)
          | None \<Rightarrow> Inr (Map_Clear h xmap mk)))"

definition Filter_elem_inplace ::
  "NestedMask \<Rightarrow> hvalue \<Rightarrow> heap \<Rightarrow> error + heap" where
  "Filter_elem_inplace m = (\<lambda>x h.
     case x of
       HMessage kd i \<Rightarrow> NestedMask_Filter_inplace m i h
     | _ \<Rightarrow> Inl Panic)"

definition Filter_field_inplace ::
  "NestedMask \<Rightarrow> addr \<Rightarrow> string \<Rightarrow> heap \<Rightarrow> error + heap" where
  "Filter_field_inplace msk a = (\<lambda>name h.
     case Get_inplace h a name of
       None \<Rightarrow> Inr h
     | Some v \<Rightarrow>
         (case fmlookup (children msk) name of
            Some m \<Rightarrow>
              if children m = fmempty then Inr h
              else (case v of
                HMap xmap \<Rightarrow>
                  (case object_at h xmap of
                     Some (OMap es) \<Rightarrow>
                       for_each (Filter_entry_inplace m xmap) (map fst es) h
                   | _ \<Rightarrow> Inr h)
              | HList l \<Rightarrow> for_each (Filter_elem_inplace m) l h
              | HMessage kd i \<Rightarrow>
                  if kd = MessageKind then NestedMask_Filter_inplace m i h
                  else Inr h
              | HScalar s \<Rightarrow> Inr h)
          | None \<Rightarrow> Inr (Clear_inplace h a name)))"

definition Prune_entry_inplace ::
  "NestedMask \<Rightarrow> addr \<Rightarrow> MapKey \<Rightarrow> heap \<Rightarrow> error + heap" where
  "Prune_entry_inplace m xmap = (\<lambda>mk h.
     case Map_Get h xmap mk of
       None \<Rightarrow> Inr h
     | Some mv \<Rightarrow>
         (case fmlookup (children m) (MapKey_String mk) of
            Some mi \<Rightarrow>
              (case mv of
                 HMessage kd i \<Rightarrow>
                   if children mi \<noteq> fmempty then
                     NestedMask_Prune_inplace mi i h
                   else Inr (Map_Clear h xmap mk)
               | _ \<Rightarrow> Inr (Map_Clear h xmap mk))
          | None \<Rightarrow> Inr h))"

definition Prune_elem_inplace ::
  "NestedMask \<Rightarrow> hvalue \<Rightarrow> heap \<Rightarrow> error + heap" where
  "Prune_elem_inplace m = (\<lambda>x h.
     case x of
       HMessage kd i \<Rightarrow> NestedMask_Prune_inplace m i h
     | _ \<Rightarrow> Inl Panic)"

definition Prune_field_inplace ::
  "NestedMask \<Rightarrow> addr \<Rightarrow> string \<Rightarrow> heap \<Rightarrow> error + heap" where
  "Prune_field_inplace msk a = (\<lambda>name h.
     case Get_inplace h a name of
       None \<Rightarrow> Inr h
     | Some v \<Rightarrow>
         (case fmlookup (children msk) name of
            Some m \<Rightarrow>
              if children m = fmempty then Inr (Clear_inplace h a name)
              else (case v of
                HMap xmap \<Rightarrow>
                  (case object_at h xmap of
                     Some (OMap es) \<Rightarrow>
                       for_each (Prune_entry_inplace m xmap) (map fst es) h
                   | _ \<Rightarrow> Inr h)
              | HList l \<Rightarrow> for_each (Prune_elem_inplace m) l h
              | HMessage kd i \<Rightarrow>
                  if kd = MessageKind then NestedMask_Prune_inplace m i h
                  else Inr h
              | HScalar s \<Rightarrow> Inr h)
          | None \<Rightarrow> Inr h))"

subsection \<open>What a call can reach and change\<close>

text \<open>
  The two methods only remove bindings: \<open>shrinks h h'\<close> says that the store \<open>h'\<close> has
  the objects of \<open>h\<close>, each with some of its bindings removed.
\<close>

definition dropped :: "('k \<times> 'v) list \<Rightarrow> ('k \<times> 'v) list \<Rightarrow> bool" where
  "dropped bs' bs = (\<exists>K. bs' = filter (\<lambda>x. fst x \<notin> K) bs)"

fun sub_object :: "object \<Rightarrow> object \<Rightarrow> bool" where
  "sub_object (OMessage fs') (OMessage fs) = dropped fs' fs"
| "sub_object (OMap es') (OMap es) = dropped es' es"
| "sub_object _ _ = False"

definition shrinks :: "heap \<Rightarrow> heap \<Rightarrow> bool" where
  "shrinks h h' = (length h' = length h \<and> (\<forall>a<length h. sub_object (h' ! a) (h ! a)))"

text \<open>
  The addresses a value refers to, those an object refers to, and the addresses that
  can be reached from a set of addresses by following references.
\<close>

fun hrefs :: "hvalue \<Rightarrow> addr set" where
  "hrefs (HScalar s) = {}"
| "hrefs (HMessage kd i) = {i}"
| "hrefs (HList l) = (\<Union>x\<in>set l. hrefs x)"
| "hrefs (HMap xmap) = {xmap}"

fun orefs :: "object \<Rightarrow> addr set" where
  "orefs (OMessage fs) = (\<Union>x\<in>set fs. hrefs (snd x))"
| "orefs (OMap es) = (\<Union>x\<in>set es. hrefs (snd x))"

inductive_set reach :: "heap \<Rightarrow> addr set \<Rightarrow> addr set" for h :: heap and A :: "addr set" where
  start: "a \<in> A \<Longrightarrow> a \<in> reach h A"
| step: "a \<in> reach h A \<Longrightarrow> object_at h a = Some ob \<Longrightarrow> b \<in> orefs ob \<Longrightarrow> b \<in> reach h A"

definition changes_within :: "addr set \<Rightarrow> heap \<Rightarrow> heap \<Rightarrow> bool" where
  "changes_within S h h' = (shrinks h h' \<and> (\<forall>a. a \<notin> S \<longrightarrow> object_at h' a = object_at h a))"

text \<open>
  For a field \<open>name\<close> of the message at \<open>a\<close>: the objects reached from the value of the
  field, and the objects reached from the values of the other fields. The field is
  unshared when the two sets are disjoint and the message itself is in neither: no
  object of the field is also reached from another field, and the message is not
  reached from its own fields. For a map at \<open>xmap\<close>: the objects reached from its
  entries.
\<close>

definition field_region :: "heap \<Rightarrow> addr \<Rightarrow> string \<Rightarrow> addr set" where
  "field_region h a name =
     reach h (case Get_inplace h a name of Some v \<Rightarrow> hrefs v | None \<Rightarrow> {})"

definition others_region :: "heap \<Rightarrow> addr \<Rightarrow> string \<Rightarrow> addr set" where
  "others_region h a name =
     reach h (case object_at h a of
                Some (OMessage fs) \<Rightarrow> (\<Union>x\<in>set fs. if fst x \<noteq> name then hrefs (snd x) else {})
              | _ \<Rightarrow> {})"

definition unshared_field :: "heap \<Rightarrow> addr \<Rightarrow> string \<Rightarrow> bool" where
  "unshared_field h a name =
     (a \<notin> field_region h a name \<and> a \<notin> others_region h a name
      \<and> field_region h a name \<inter> others_region h a name = {})"


text \<open>
  For the proofs: the stores in which every element of every list is a reference to a
  message. On them \<^verbatim>\<open>list.Get(i).Message()\<close> does not panic, whatever the mask.
\<close>

fun value_lists_hold_messages_inplace :: "hvalue \<Rightarrow> bool" where
  "value_lists_hold_messages_inplace (HList l) =
     list_all (\<lambda>x. case x of HMessage kd i \<Rightarrow> True | _ \<Rightarrow> False) l"
| "value_lists_hold_messages_inplace v = True"

fun object_lists_hold_messages :: "object \<Rightarrow> bool" where
  "object_lists_hold_messages (OMessage fs) =
     list_all (\<lambda>x. value_lists_hold_messages_inplace (snd x)) fs"
| "object_lists_hold_messages (OMap es) =
     list_all (\<lambda>x. value_lists_hold_messages_inplace (snd x)) es"

definition lists_hold_messages_inplace :: "heap \<Rightarrow> bool" where
  "lists_hold_messages_inplace h = list_all object_lists_hold_messages h"

text \<open>
  For the proofs: what the callback on a field can do to the store.
\<close>

definition field_step :: "(string \<Rightarrow> heap \<Rightarrow> error + heap) \<Rightarrow> addr \<Rightarrow> bool" where
  "field_step f a =
     (\<forall>name h1 h2. f name h1 = Inr h2 \<longrightarrow>
        h2 = h1 \<or> h2 = Clear_inplace h1 a name
        \<or> (\<exists>v. Get_inplace h1 a name = Some v \<and> changes_within (reach h1 (hrefs v)) h1 h2))"

text \<open>
  The value a store holds at a reference, read down to a given depth (a store can hold a
  message that contains itself): the message as the engine on values sees it.
\<close>

fun load :: "nat \<Rightarrow> heap \<Rightarrow> hvalue \<Rightarrow> Value option" where
  "load 0 h v = None"
| "load (Suc d) h (HScalar s) = Some (VScalar s)"
| "load (Suc d) h (HMessage kd a) =
     (case object_at h a of
        Some (OMessage fs) \<Rightarrow>
          map_option (\<lambda>fs'. VMessage kd (Message fs'))
            (those (map (\<lambda>x. map_option (Pair (fst x)) (load d h (snd x))) fs))
      | _ \<Rightarrow> None)"
| "load (Suc d) h (HList l) = map_option VList (those (map (load d h) l))"
| "load (Suc d) h (HMap a) =
     (case object_at h a of
        Some (OMap es) \<Rightarrow>
          map_option VMap
            (those (map (\<lambda>x. map_option (Pair (fst x)) (load d h (snd x))) es))
      | _ \<Rightarrow> None)"

section \<open>Example messages\<close>

text \<open>
  The messages of the examples: a profile with a user and a photo, and a message with a
  map \<open>attrs\<close> of three attributes, each holding a map \<open>tags\<close> from strings to strings.
\<close>

definition example_profile :: message where
  "example_profile = Message
     [(''user'', VMessage MessageKind (Message [(''id'', VScalar (SInt 1)), (''name'', VScalar (SString ''n''))])),
      (''photo'', VMessage MessageKind (Message [(''id'', VScalar (SInt 2))]))]"

definition example_tags :: Value where
  "example_tags = VMap
     [(KString ''t1'', VScalar (SString ''1'')),
      (KString ''t2'', VScalar (SString ''2'')),
      (KString ''t3'', VScalar (SString ''3''))]"

definition example_attrs :: message where
  "example_attrs = Message
     [(''attrs'', VMap
        [(KString ''a1'', VMessage MessageKind (Message [(''tags'', example_tags)])),
         (KString ''a2'', VMessage MessageKind (Message [(''tags'', example_tags)])),
         (KString ''a3'', VMessage MessageKind (Message [(''tags'', example_tags)]))])]"

text \<open>
  The profile in the store, with the user at address 1 and the photo at address 2, and
  what Prune with the path \<open>user\<close> leaves of it.
\<close>

definition profile_heap :: heap where
  "profile_heap =
     [OMessage [(''user'', HMessage MessageKind 1), (''photo'', HMessage MessageKind 2)],
      OMessage [(''id'', HScalar (SInt 1)), (''name'', HScalar (SString ''n''))],
      OMessage [(''id'', HScalar (SInt 2))]]"

definition profile_pruned :: heap where
  "profile_pruned =
     [OMessage [(''photo'', HMessage MessageKind 2)],
      OMessage [(''id'', HScalar (SInt 1)), (''name'', HScalar (SString ''n''))],
      OMessage [(''id'', HScalar (SInt 2))]]"

text \<open>
  A message whose field \<open>photo\<close> and whose list \<open>gallery\<close> hold the same photo (one Go
  pointer stored twice), and the store once the path of the photo is cleared.
\<close>

definition shared_photo :: heap where
  "shared_photo =
     [OMessage [(''photo'', HMessage MessageKind 1), (''gallery'', HList [HMessage MessageKind 1])],
      OMessage [(''id'', HScalar (SInt 1)), (''path'', HScalar (SString ''p''))]]"

definition shared_photo_trimmed :: heap where
  "shared_photo_trimmed =
     [OMessage [(''photo'', HMessage MessageKind 1), (''gallery'', HList [HMessage MessageKind 1])],
      OMessage [(''id'', HScalar (SInt 1))]]"

text \<open>
  A message whose fields \<open>tags\<close> and \<open>labels\<close> hold the same map from strings to strings,
  with the fields in either order, and a message whose two fields hold two maps.
\<close>

definition shared_tags :: heap where
  "shared_tags =
     [OMessage [(''tags'', HMap 1), (''labels'', HMap 1)],
      OMap [(KString ''t1'', HScalar (SString ''1'')), (KString ''t2'', HScalar (SString ''2''))]]"



section \<open>Mask construction\<close>

lemma fmupd_same: "fmlookup f k = Some c \<Longrightarrow> fmupd k c f = f"
  by (rule fmap_ext) auto

lemma walk_insert_path:
  "NestedMask_walk cur letters rest = insert_path (segments letters rest) cur"
  by (induction rest arbitrary: cur letters)
    (auto simp: fmupd_same Let_def split: option.splits)

lemma wildcard_walk_eq: "WildcardNestedMask_walk cur letters rest = NestedMask_walk cur letters rest"
  by (induction rest arbitrary: cur letters) (auto simp: Let_def)

lemma insert_path_commute:
  "insert_path p (insert_path q m) = insert_path q (insert_path p m)"
proof (induction p arbitrary: q m)
  case Nil
  show ?case by simp
next
  case (Cons k ps)
  show ?case
  proof (cases q)
    case Nil
    then show ?thesis by simp
  next
    case (Cons j qs)
    show ?thesis
    proof (cases "k = j")
      case True
      then show ?thesis using Cons.IH[of qs] Cons by simp
    next
      case False
      then show ?thesis using Cons by (simp add: fmupd_reorder_neq)
    qed
  qed
qed

lemma insert_path_idem: "insert_path p (insert_path p m) = insert_path p m"
  by (induction p arbitrary: m) auto

lemma has_path_insert_self: "has_path (insert_path p m) p"
  by (induction p arbitrary: m) auto

lemma segments_no_dot:
  "CHR ''.'' \<notin> set s \<Longrightarrow> segments l (s @ r) = segments (l @ s) r"
  by (induction s arbitrary: l) auto

lemma segments_two:
  assumes "a \<noteq> []" "b \<noteq> []" "CHR ''.'' \<notin> set a" "CHR ''.'' \<notin> set b"
  shows "segments [] (a @ ''.'' @ b) = [a, b]"
proof -
  have "segments [] (a @ ''.'' @ b) = segments a (''.'' @ b)"
    using segments_no_dot[of a "[]" "''.'' @ b"] assms by simp
  also have "\<dots> = a # segments [] b" using assms by simp
  also have "segments [] b = [b]"
    using segments_no_dot[of b "[]" "[]"] assms by simp
  finally show ?thesis .
qed

lemma NestedMaskFromPaths_fold:
  "NestedMaskFromPaths paths = fold add_path paths (NestedMask fmempty)"
  by (simp add: NestedMaskFromPaths_def add_path_def walk_insert_path)

lemma WildcardNestedMaskFromPaths_eq:
  "WildcardNestedMaskFromPaths paths = NestedMaskFromPaths paths"
  by (simp add: WildcardNestedMaskFromPaths_def NestedMaskFromPaths_def wildcard_walk_eq)

lemma add_path_commute: "add_path p (add_path q m) = add_path q (add_path p m)"
  unfolding add_path_def by (rule insert_path_commute)

lemma add_path_idem: "add_path p (add_path p m) = add_path p m"
  unfolding add_path_def by (rule insert_path_idem)

lemma add_path_fold: "add_path p (fold add_path xs m) = fold add_path xs (add_path p m)"
  by (induction xs arbitrary: m) (simp_all add: add_path_commute)

lemma fold_add_path_absorb:
  "p \<in> set P \<Longrightarrow> add_path p (fold add_path P m) = fold add_path P m"
proof (induction P arbitrary: m)
  case Nil
  then show ?case by simp
next
  case (Cons x xs)
  show ?case
  proof (cases "p = x")
    case True
    then show ?thesis by (simp add: add_path_fold add_path_idem)
  next
    case False
    with Cons show ?thesis by simp
  qed
qed

lemma fold_add_path_subset:
  "set P \<subseteq> set Q \<Longrightarrow> fold add_path P (fold add_path Q m) = fold add_path Q m"
  by (induction P) (simp_all add: fold_add_path_absorb)

lemma fold_add_path_swap:
  "fold add_path P (fold add_path Q m) = fold add_path Q (fold add_path P m)"
  by (induction P arbitrary: m) (simp_all add: add_path_fold)

lemma fold_add_path_set:
  assumes "set P = set Q"
  shows "fold add_path P m = fold add_path Q m"
proof -
  have "fold add_path Q m = fold add_path P (fold add_path Q m)"
    using assms by (simp add: fold_add_path_subset)
  also have "\<dots> = fold add_path Q (fold add_path P m)"
    by (rule fold_add_path_swap)
  also have "\<dots> = fold add_path P m"
    using assms by (simp add: fold_add_path_subset)
  finally show ?thesis by simp
qed

lemma NestedMaskFromPaths_set:
  "set P = set Q \<Longrightarrow> NestedMaskFromPaths P = NestedMaskFromPaths Q"
  unfolding NestedMaskFromPaths_fold by (rule fold_add_path_set)

lemma NestedMaskFromPaths_has_path:
  assumes "p \<in> set P"
  shows "has_path (NestedMaskFromPaths P) (segments [] p)"
proof -
  have "add_path p (NestedMaskFromPaths P) = NestedMaskFromPaths P"
    using assms by (simp add: NestedMaskFromPaths_fold fold_add_path_absorb)
  moreover have "has_path (add_path p (NestedMaskFromPaths P)) (segments [] p)"
    by (simp add: add_path_def has_path_insert_self)
  ultimately show ?thesis by simp
qed

text \<open>
  C8. The tree built from a list of paths is the same for every permutation of the list
  (and, more generally, for every list with the same set of paths: adding a path is
  commutative and idempotent), for both mask builders. A shorter path does not turn a
  populated subtree into a leaf: when the paths \<open>a\<close> and \<open>a.b\<close> both occur, in any
  order, the node for \<open>a\<close> has the child \<open>b\<close>.
\<close>

theorem mask_construction_order_independent:
  "(mset P = mset Q \<longrightarrow>
      NestedMaskFromPaths P = NestedMaskFromPaths Q
      \<and> WildcardNestedMaskFromPaths P = WildcardNestedMaskFromPaths Q)
   \<and> (set P = set Q \<longrightarrow>
      NestedMaskFromPaths P = NestedMaskFromPaths Q
      \<and> WildcardNestedMaskFromPaths P = WildcardNestedMaskFromPaths Q)
   \<and> (a \<noteq> [] \<and> b \<noteq> [] \<and> CHR ''.'' \<notin> set a \<and> CHR ''.'' \<notin> set b
        \<and> a \<in> set P \<and> a @ ''.'' @ b \<in> set P \<longrightarrow>
      (\<exists>c. fmlookup (children (NestedMaskFromPaths P)) a = Some c
           \<and> fmlookup (children c) b \<noteq> None)
      \<and> (\<exists>c. fmlookup (children (WildcardNestedMaskFromPaths P)) a = Some c
           \<and> fmlookup (children c) b \<noteq> None))"
proof (intro conjI impI)
  assume "mset P = mset Q"
  then have "set P = set Q" by (rule mset_eq_setD)
  then show "NestedMaskFromPaths P = NestedMaskFromPaths Q"
    by (rule NestedMaskFromPaths_set)
  then show "WildcardNestedMaskFromPaths P = WildcardNestedMaskFromPaths Q"
    by (simp add: WildcardNestedMaskFromPaths_eq)
next
  assume "set P = set Q"
  then show "NestedMaskFromPaths P = NestedMaskFromPaths Q"
    by (rule NestedMaskFromPaths_set)
  then show "WildcardNestedMaskFromPaths P = WildcardNestedMaskFromPaths Q"
    by (simp add: WildcardNestedMaskFromPaths_eq)
next
  assume h: "a \<noteq> [] \<and> b \<noteq> [] \<and> CHR ''.'' \<notin> set a \<and> CHR ''.'' \<notin> set b
        \<and> a \<in> set P \<and> a @ ''.'' @ b \<in> set P"
  then have "has_path (NestedMaskFromPaths P) [a, b]"
    using NestedMaskFromPaths_has_path[of "a @ ''.'' @ b" P] segments_two[of a b] by simp
  then show "\<exists>c. fmlookup (children (NestedMaskFromPaths P)) a = Some c
           \<and> fmlookup (children c) b \<noteq> None"
    by (auto split: option.splits)
  then show "\<exists>c. fmlookup (children (WildcardNestedMaskFromPaths P)) a = Some c
           \<and> fmlookup (children c) b \<noteq> None"
    by (simp add: WildcardNestedMaskFromPaths_eq)
qed

theorem mask_construction_order_independent_witness:
  "mset [''a'', ''a.b'', ''c.d''] = mset [''c.d'', ''a.b'', ''a'']
   \<and> set [''a'', ''a.b'', ''c.d''] = set [''c.d'', ''a.b'', ''a'']
   \<and> ''a'' \<in> set [''a'', ''a.b'', ''c.d''] \<and> ''a'' @ ''.'' @ ''b'' \<in> set [''a'', ''a.b'', ''c.d'']
   \<and> NestedMaskFromPaths [''a'', ''a.b'', ''c.d''] = NestedMaskFromPaths [''c.d'', ''a.b'', ''a'']
   \<and> WildcardNestedMaskFromPaths [''a'', ''a.b'', ''c.d'']
       = WildcardNestedMaskFromPaths [''c.d'', ''a.b'', ''a'']
   \<and> (\<exists>c. fmlookup (children (NestedMaskFromPaths [''a'', ''a.b'', ''c.d''])) ''a'' = Some c
           \<and> fmlookup (children c) ''b'' \<noteq> None)"
proof -
  let ?P = "[''a'', ''a.b'', ''c.d'']" and ?Q = "[''c.d'', ''a.b'', ''a'']"
  note t = mask_construction_order_independent [of ?P ?Q "''a''" "''b''"]
  have m: "mset ?P = mset ?Q" by simp
  have s: "set ?P = set ?Q" by (simp add: insert_commute)
  have i1: "''a'' \<in> set ?P" by simp
  have i2: "''a'' @ ''.'' @ ''b'' \<in> set ?P" by simp
  have h: "''a'' \<noteq> [] \<and> ''b'' \<noteq> [] \<and> CHR ''.'' \<notin> set ''a'' \<and> CHR ''.'' \<notin> set ''b''
        \<and> ''a'' \<in> set ?P \<and> ''a'' @ ''.'' @ ''b'' \<in> set ?P" by simp
  from t have "mset ?P = mset ?Q \<longrightarrow>
      NestedMaskFromPaths ?P = NestedMaskFromPaths ?Q
      \<and> WildcardNestedMaskFromPaths ?P = WildcardNestedMaskFromPaths ?Q"
    by (rule conjunct1)
  with m have e: "NestedMaskFromPaths ?P = NestedMaskFromPaths ?Q
      \<and> WildcardNestedMaskFromPaths ?P = WildcardNestedMaskFromPaths ?Q"
    by (rule rev_mp)
  from t[THEN conjunct2, THEN conjunct2] h
  have c: "(\<exists>c. fmlookup (children (NestedMaskFromPaths ?P)) ''a'' = Some c
           \<and> fmlookup (children c) ''b'' \<noteq> None)
      \<and> (\<exists>c. fmlookup (children (WildcardNestedMaskFromPaths ?P)) ''a'' = Some c
           \<and> fmlookup (children c) ''b'' \<noteq> None)"
    by (rule mp)
  show ?thesis
    using m s i1 i2 e[THEN conjunct1] e[THEN conjunct2] c[THEN conjunct1]
    by (intro conjI) assumption+
qed

text \<open>The builder on inputs of the repository's tests.\<close>

lemma NestedMaskFromPaths_examples:
  "NestedMaskFromPaths [''.'', ''..'', ''...''] = NestedMask fmempty"
  "NestedMaskFromPaths [''a.b'', ''a''] =
     NestedMask (fmupd ''a'' (NestedMask (fmupd ''b'' (NestedMask fmempty) fmempty)) fmempty)"
  "NestedMaskFromPaths [''a'', ''a.b''] =
     NestedMask (fmupd ''a'' (NestedMask (fmupd ''b'' (NestedMask fmempty) fmempty)) fmempty)"
  by (simp_all add: NestedMaskFromPaths_def Let_def)

section \<open>Iteration lemmas\<close>

lemma keeps_key_Cons:
  "keeps_key f (x # xs) \<Longrightarrow> keeps_key f xs"
  unfolding keeps_key_def by (meson list.set_intros(2))

lemma Range_iter_cleared:
  assumes "Range_iter f xs = Inr ys" and "keeps_key f xs"
    and "\<And>x. x \<in> set xs \<Longrightarrow> fst x = n \<Longrightarrow> f x = Inr (True, None)"
  shows "map_of ys n = None"
  using assms
proof (induction xs arbitrary: ys)
  case Nil
  then show ?case by simp
next
  case (Cons x xs)
  from Cons.prems(1) obtain c y where fx: "f x = Inr (c, y)"
    by (auto split: sum.splits)
  with Cons.prems(2) have c: "c" and k: "\<forall>z. y = Some z \<longrightarrow> fst z = fst x"
    by (auto simp: keeps_key_def)
  from Cons.prems(1) fx c obtain ys' where r: "Range_iter f xs = Inr ys'"
    and ys: "ys = (case y of None \<Rightarrow> ys' | Some z \<Rightarrow> z # ys')"
    by (auto split: sum.splits)
  have ih: "map_of ys' n = None"
    using Cons.IH[OF r keeps_key_Cons[OF Cons.prems(2)]] Cons.prems(3) by simp
  show ?case
  proof (cases "fst x = n")
    case True
    then have "y = None" using Cons.prems(3)[of x] fx by simp
    with ys ih show ?thesis by simp
  next
    case False
    with ys ih k show ?thesis by (cases y) auto
  qed
qed

lemma Range_iter_first:
  assumes "Range_iter f xs = Inr ys" and "keeps_key f xs"
    and "map_of xs n = Some v" and "f (n, v) = Inr (True, Some (n, v'))"
  shows "map_of ys n = Some v'"
  using assms
proof (induction xs arbitrary: ys)
  case Nil
  then show ?case by simp
next
  case (Cons x xs)
  from Cons.prems(1) obtain c y where fx: "f x = Inr (c, y)"
    by (auto split: sum.splits)
  with Cons.prems(2) have c: "c" and k: "\<forall>z. y = Some z \<longrightarrow> fst z = fst x"
    by (auto simp: keeps_key_def)
  from Cons.prems(1) fx c obtain ys' where r: "Range_iter f xs = Inr ys'"
    and ys: "ys = (case y of None \<Rightarrow> ys' | Some z \<Rightarrow> z # ys')"
    by (auto split: sum.splits)
  show ?case
  proof (cases "fst x = n")
    case True
    then have "x = (n, v)" using Cons.prems(3) by (cases x) simp
    then have "y = Some (n, v')" using fx Cons.prems(4) by simp
    with ys show ?thesis by simp
  next
    case False
    then have "map_of xs n = Some v" using Cons.prems(3) by (cases x) simp
    then have "map_of ys' n = Some v'"
      using Cons.IH[OF r keeps_key_Cons[OF Cons.prems(2)]] Cons.prems(4) by simp
    with ys False k show ?thesis by (cases y) auto
  qed
qed

lemma Range_iter_same:
  assumes "Range_iter f xs = Inr ys" and "keeps_key f xs"
    and "\<And>x. x \<in> set xs \<Longrightarrow> fst x = n \<Longrightarrow> f x = Inr (True, Some x)"
  shows "map_of ys n = map_of xs n"
proof (cases "map_of xs n")
  case None
  then have "\<And>x. x \<in> set xs \<Longrightarrow> fst x = n \<Longrightarrow> f x = Inr (True, None)"
    by (metis map_of_eq_None_iff image_eqI)
  with assms(1,2) None show ?thesis by (simp add: Range_iter_cleared)
next
  case (Some v)
  then have "(n, v) \<in> set xs" by (rule map_of_SomeD)
  then have "f (n, v) = Inr (True, Some (n, v))" using assms(3) by simp
  with assms(1,2) Some show ?thesis by (simp add: Range_iter_first)
qed

lemma Range_iter_no_error:
  assumes "Range_iter f xs = Inr ys" and "keeps_key f xs" and "x \<in> set xs"
  shows "\<exists>y. f x = Inr (True, y)"
  using assms
proof (induction xs arbitrary: ys)
  case Nil
  then show ?case by simp
next
  case (Cons a xs)
  from Cons.prems(1) obtain c y where fa: "f a = Inr (c, y)"
    by (auto split: sum.splits)
  with Cons.prems(2) have c: "c" by (auto simp: keeps_key_def)
  from Cons.prems(1) fa c obtain ys' where r: "Range_iter f xs = Inr ys'"
    by (auto split: sum.splits)
  show ?case
  proof (cases "x = a")
    case True
    with fa c show ?thesis by simp
  next
    case False
    with Cons.prems(3) have "x \<in> set xs" by simp
    then show ?thesis using Cons.IH[OF r keeps_key_Cons[OF Cons.prems(2)]] by simp
  qed
qed

lemma Range_iter_idem:
  assumes "Range_iter f xs = Inr ys"
    and "\<And>x c y. x \<in> set xs \<Longrightarrow> f x = Inr (c, y) \<Longrightarrow>
           c \<and> (\<forall>z. y = Some z \<longrightarrow> f z = Inr (True, Some z))"
  shows "Range_iter f ys = Inr ys"
  using assms
proof (induction xs arbitrary: ys)
  case Nil
  then show ?case by simp
next
  case (Cons x xs)
  from Cons.prems(1) obtain c y where fx: "f x = Inr (c, y)"
    by (auto split: sum.splits)
  with Cons.prems(2)[of x c y] have c: "c"
    and k: "\<forall>z. y = Some z \<longrightarrow> f z = Inr (True, Some z)"
    by simp_all
  from Cons.prems(1) fx c obtain ys' where r: "Range_iter f xs = Inr ys'"
    and ys: "ys = (case y of None \<Rightarrow> ys' | Some z \<Rightarrow> z # ys')"
    by (auto split: sum.splits)
  have ih: "Range_iter f ys' = Inr ys'"
  proof (rule Cons.IH[OF r])
    fix x' c' y'
    assume "x' \<in> set xs" and "f x' = Inr (c', y')"
    then show "c' \<and> (\<forall>z. y' = Some z \<longrightarrow> f z = Inr (True, Some z))"
      using Cons.prems(2)[of x' c' y'] by simp
  qed
  show ?case
  proof (cases y)
    case None
    with ys ih show ?thesis by simp
  next
    case (Some z)
    with k have "f z = Inr (True, Some z)" by simp
    with ys ih Some show ?thesis by simp
  qed
qed

lemma Range_iter_id:
  assumes "Range_iter f xs = Inr ys"
    and "\<And>x c y. x \<in> set xs \<Longrightarrow> f x = Inr (c, y) \<Longrightarrow> c \<and> y = Some x"
  shows "ys = xs"
  using assms
proof (induction xs arbitrary: ys)
  case Nil
  then show ?case by simp
next
  case (Cons x xs)
  from Cons.prems(1) obtain c y where fx: "f x = Inr (c, y)"
    by (auto split: sum.splits)
  with Cons.prems(2)[of x c y] have c: "c" and y: "y = Some x" by simp_all
  from Cons.prems(1) fx c y obtain ys' where r: "Range_iter f xs = Inr ys'"
    and ys: "ys = x # ys'"
    by (auto split: sum.splits)
  have "ys' = xs"
  proof (rule Cons.IH[OF r])
    fix x' c' y'
    assume "x' \<in> set xs" and "f x' = Inr (c', y')"
    then show "c' \<and> y' = Some x'" using Cons.prems(2)[of x' c' y'] by simp
  qed
  with ys show ?case by simp
qed

lemma Range_iter_returns:
  assumes "\<And>x. x \<in> set xs \<Longrightarrow> \<exists>y. f x = Inr (True, y)"
  shows "\<exists>ys. Range_iter f xs = Inr ys"
  using assms
proof (induction xs)
  case Nil
  show ?case by simp
next
  case (Cons x xs)
  from Cons.prems[of x] obtain y where "f x = Inr (True, y)" by auto
  moreover from Cons.IH Cons.prems obtain ys where "Range_iter f xs = Inr ys" by auto
  ultimately show ?case by simp
qed

lemma fmupd_not_empty: "fmupd k v f \<noteq> fmempty"
  by (metis fmupd_lookup fmempty_lookup option.distinct(1))

lemma size_field_mem:
  "(n, v) \<in> set fs \<Longrightarrow> size v < size (Message fs)"
  using size_snd_mem[of "(n, v)" fs] by simp

lemma size_entry_mem:
  "(mk, VMessage kd i) \<in> set xmap \<Longrightarrow> size i < size (VMap xmap)"
  using size_snd_mem[of "(mk, VMessage kd i)" xmap] by simp

lemma size_elem_mem:
  "VMessage kd i \<in> set l \<Longrightarrow> size i < size (VList l)"
  using size_msg_mem[of kd i l] by simp

section \<open>The exact engine on values: evaluation, and the calls that return\<close>

lemma NestedMask_Filter_fields:
  "NestedMask_Filter msk (Message fs) =
     (if children msk = fmempty then Inr (Message fs)
      else map_sum id Message (Range_iter (Filter_field msk) fs))"
  unfolding Filter_field_def Filter_entry_def Filter_elem_def
  by (rule NestedMask_Filter.simps)

lemma NestedMask_Prune_fields:
  "NestedMask_Prune msk (Message fs) =
     (if children msk = fmempty then Inr (Message fs)
      else map_sum id Message (Range_iter (Prune_field msk) fs))"
  unfolding Prune_field_def Prune_entry_def Prune_elem_def
  by (rule NestedMask_Prune.simps)

lemmas exact_eval =
  Filter_def Prune_def NestedMaskFromPaths_def NestedMask_Filter.simps NestedMask_Prune.simps
  Let_def fmupd_not_empty

declare NestedMask_Filter.simps [simp del]

declare NestedMask_Prune.simps [simp del]

lemma keeps_key_Filter_entry: "keeps_key (Filter_entry m) xmap"
  by (auto simp: keeps_key_def Filter_entry_def split: option.splits Value.splits if_splits sum.splits)

lemma keeps_key_Filter_field: "keeps_key (Filter_field msk) fs"
  by (auto simp: keeps_key_def Filter_field_def split: option.splits Value.splits if_splits sum.splits)

lemma keeps_key_Prune_entry: "keeps_key (Prune_entry m) xmap"
  by (auto simp: keeps_key_def Prune_entry_def split: option.splits Value.splits if_splits sum.splits)

lemma keeps_key_Prune_field: "keeps_key (Prune_field msk) fs"
  by (auto simp: keeps_key_def Prune_field_def split: option.splits Value.splits if_splits sum.splits)

text \<open>
  The exact engine returns on every message whose lists hold messages; the only panic is
  that of \<^verbatim>\<open>list.Get(i).Message()\<close> on an element that is not a message.
\<close>

lemma NestedMask_Filter_returns:
  "lists_hold_messages msg \<Longrightarrow> \<exists>msg'. NestedMask_Filter msk msg = Inr msg'"
proof (induction "size msg" arbitrary: msk msg rule: less_induct)
  case less
  obtain fs where msg: "msg = Message fs" by (cases msg)
  have "\<exists>fs'. Range_iter (Filter_field msk) fs = Inr fs'"
  proof (rule Range_iter_returns)
    fix x
    assume x: "x \<in> set fs"
    obtain n v where xe: "x = (n, v)" by (cases x)
    from x xe msg have sz: "size v < size msg" using size_field_mem[of n v fs] by simp
    from less.prems msg x xe have wf: "value_lists_hold_messages v"
      by (auto simp: list_all_iff)
    show "\<exists>y. Filter_field msk x = Inr (True, y)"
    proof (cases v)
      case (VScalar s)
      with xe show ?thesis by (simp add: Filter_field_def split: option.splits)
    next
      case (VMessage kd i)
      have "\<exists>i'. NestedMask_Filter m i = Inr i'" for m
        using less.hyps[of i m] sz wf VMessage by simp
      with xe VMessage show ?thesis
        by (auto simp: Filter_field_def split: option.splits sum.splits) (metis Inl_Inr_False)
    next
      case (VList l)
      have "\<exists>l'. Range_iter (Filter_elem m) l = Inr l'" for m
      proof (rule Range_iter_returns)
        fix e
        assume e: "e \<in> set l"
        with wf VList have "case e of VMessage kd i \<Rightarrow> lists_hold_messages i | _ \<Rightarrow> False"
          by (simp add: list_all_iff)
        then obtain kd i where ei: "e = VMessage kd i" and wi: "lists_hold_messages i"
          by (cases e) simp_all
        from e ei VList sz have "size i < size msg" using size_elem_mem[of kd i l] by simp
        from less.hyps[OF this wi, of m] ei show "\<exists>y. Filter_elem m e = Inr (True, y)"
          by (auto simp: Filter_elem_def)
      qed
      with xe VList show ?thesis
        by (auto simp: Filter_field_def split: option.splits sum.splits) (metis Inl_Inr_False)
    next
      case (VMap xmap)
      have "\<exists>xmap'. Range_iter (Filter_entry m) xmap = Inr xmap'" for m
      proof (rule Range_iter_returns)
        fix e
        assume e: "e \<in> set xmap"
        obtain mk mv where ee: "e = (mk, mv)" by (cases e)
        show "\<exists>y. Filter_entry m e = Inr (True, y)"
        proof (cases mv)
          case (VMessage kd i)
          with e ee wf VMap have wi: "lists_hold_messages i" by (auto simp: list_all_iff)
          from e ee VMessage VMap sz have "size i < size msg"
            using size_entry_mem[of mk kd i xmap] by simp
          from less.hyps[OF this wi] ee VMessage show ?thesis
            by (auto simp: Filter_entry_def split: option.splits sum.splits) (metis Inl_Inr_False)
        qed (use ee in \<open>auto simp: Filter_entry_def split: option.splits\<close>)
      qed
      with xe VMap show ?thesis
        by (auto simp: Filter_field_def split: option.splits sum.splits) (metis Inl_Inr_False)
    qed
  qed
  with msg show ?case by (auto simp: NestedMask_Filter_fields)
qed

lemma NestedMask_Prune_returns:
  "lists_hold_messages msg \<Longrightarrow> \<exists>msg'. NestedMask_Prune msk msg = Inr msg'"
proof (induction "size msg" arbitrary: msk msg rule: less_induct)
  case less
  obtain fs where msg: "msg = Message fs" by (cases msg)
  have "\<exists>fs'. Range_iter (Prune_field msk) fs = Inr fs'"
  proof (rule Range_iter_returns)
    fix x
    assume x: "x \<in> set fs"
    obtain n v where xe: "x = (n, v)" by (cases x)
    from x xe msg have sz: "size v < size msg" using size_field_mem[of n v fs] by simp
    from less.prems msg x xe have wf: "value_lists_hold_messages v"
      by (auto simp: list_all_iff)
    show "\<exists>y. Prune_field msk x = Inr (True, y)"
    proof (cases v)
      case (VScalar s)
      with xe show ?thesis by (simp add: Prune_field_def split: option.splits)
    next
      case (VMessage kd i)
      have "\<exists>i'. NestedMask_Prune m i = Inr i'" for m
        using less.hyps[of i m] sz wf VMessage by simp
      with xe VMessage show ?thesis
        by (auto simp: Prune_field_def split: option.splits sum.splits) (metis Inl_Inr_False)
    next
      case (VList l)
      have "\<exists>l'. Range_iter (Prune_elem m) l = Inr l'" for m
      proof (rule Range_iter_returns)
        fix e
        assume e: "e \<in> set l"
        with wf VList have "case e of VMessage kd i \<Rightarrow> lists_hold_messages i | _ \<Rightarrow> False"
          by (simp add: list_all_iff)
        then obtain kd i where ei: "e = VMessage kd i" and wi: "lists_hold_messages i"
          by (cases e) simp_all
        from e ei VList sz have "size i < size msg" using size_elem_mem[of kd i l] by simp
        from less.hyps[OF this wi, of m] ei show "\<exists>y. Prune_elem m e = Inr (True, y)"
          by (auto simp: Prune_elem_def)
      qed
      with xe VList show ?thesis
        by (auto simp: Prune_field_def split: option.splits sum.splits) (metis Inl_Inr_False)
    next
      case (VMap xmap)
      have "\<exists>xmap'. Range_iter (Prune_entry m) xmap = Inr xmap'" for m
      proof (rule Range_iter_returns)
        fix e
        assume e: "e \<in> set xmap"
        obtain mk mv where ee: "e = (mk, mv)" by (cases e)
        show "\<exists>y. Prune_entry m e = Inr (True, y)"
        proof (cases mv)
          case (VMessage kd i)
          with e ee wf VMap have wi: "lists_hold_messages i" by (auto simp: list_all_iff)
          from e ee VMessage VMap sz have "size i < size msg"
            using size_entry_mem[of mk kd i xmap] by simp
          from less.hyps[OF this wi] ee VMessage show ?thesis
            by (auto simp: Prune_entry_def split: option.splits sum.splits) (metis Inl_Inr_False)
        qed (use ee in \<open>auto simp: Prune_entry_def split: option.splits\<close>)
      qed
      with xe VMap show ?thesis
        by (auto simp: Prune_field_def split: option.splits sum.splits) (metis Inl_Inr_False)
    qed
  qed
  with msg show ?case by (auto simp: NestedMask_Prune_fields)
qed

text \<open>The exact engine on inputs of the repository's tests.\<close>

lemma exact_engine_examples:
  "Filter example_attrs [''attrs.a1'', ''attrs.a2.tags.t2'', ''attrs.aNonExistant''] =
     Inr (Message [(''attrs'', VMap
        [(KString ''a1'', VMessage MessageKind (Message [(''tags'', example_tags)])),
         (KString ''a2'', VMessage MessageKind (Message [(''tags'', VMap [(KString ''t2'', VScalar (SString ''2''))])]))])])"
  "Prune example_attrs [''attrs.a1'', ''attrs.a2.tags.t2'', ''attrs.aNonExistant''] =
     Inr (Message [(''attrs'', VMap
        [(KString ''a2'', VMessage MessageKind (Message [(''tags'', VMap
            [(KString ''t1'', VScalar (SString ''1'')), (KString ''t3'', VScalar (SString ''3''))])])),
         (KString ''a3'', VMessage MessageKind (Message [(''tags'', example_tags)]))])])"
  "Filter example_profile [''user.name''] =
     Inr (Message [(''user'', VMessage MessageKind (Message [(''name'', VScalar (SString ''n''))]))])"
  "Prune example_profile [''user.name''] =
     Inr (Message [(''user'', VMessage MessageKind (Message [(''id'', VScalar (SInt 1))])),
                   (''photo'', VMessage MessageKind (Message [(''id'', VScalar (SInt 2))]))])"
  "Filter (Message [(''login_timestamps'', VList [VScalar (SInt 1), VScalar (SInt 2)])])
     [''login_timestamps.seconds''] = Inl Panic"
  by (simp_all add: exact_eval example_attrs_def example_tags_def example_profile_def)

section \<open>The exact engine in place: what a call changes\<close>

lemma NestedMask_Filter_inplace_unfold:
  "NestedMask_Filter_inplace msk a h =
     (if children msk = fmempty then Inr h
      else case object_at h a of
        Some (OMessage fs) \<Rightarrow> for_each (Filter_field_inplace msk a) (map fst fs) h
      | _ \<Rightarrow> Inr h)"
  unfolding Filter_field_inplace_def Filter_entry_inplace_def Filter_elem_inplace_def
  by (rule NestedMask_Filter_inplace.simps)

lemma NestedMask_Prune_inplace_unfold:
  "NestedMask_Prune_inplace msk a h =
     (if children msk = fmempty then Inr h
      else case object_at h a of
        Some (OMessage fs) \<Rightarrow> for_each (Prune_field_inplace msk a) (map fst fs) h
      | _ \<Rightarrow> Inr h)"
  unfolding Prune_field_inplace_def Prune_entry_inplace_def Prune_elem_inplace_def
  by (rule NestedMask_Prune_inplace.simps)

lemmas inplace_eval =
  NestedMask_Filter_inplace.simps NestedMask_Prune_inplace.simps
  NestedMaskFromPaths_def fmupd_not_empty object_at_def Get_inplace_def
  Clear_inplace_def Map_Get_def Map_Clear_def Let_def

lemmas heap_eval = inplace_eval Filter_inplace_def Prune_inplace_def

declare NestedMask_Filter_inplace.simps [simp del]

declare NestedMask_Prune_inplace.simps [simp del]

subsection \<open>Stores that only lose bindings\<close>

lemma dropped_refl: "dropped bs bs"
  unfolding dropped_def by (rule exI[of _ "{}"]) simp

lemma dropped_trans: "dropped bs1 bs \<Longrightarrow> dropped bs2 bs1 \<Longrightarrow> dropped bs2 bs"
proof -
  assume "dropped bs1 bs" and "dropped bs2 bs1"
  then obtain K K' where 1: "bs1 = filter (\<lambda>x. fst x \<notin> K) bs"
    and 2: "bs2 = filter (\<lambda>x. fst x \<notin> K') bs1"
    unfolding dropped_def by blast
  have "bs2 = filter (\<lambda>x. fst x \<notin> K \<union> K') bs"
    unfolding 2 1 by (simp add: conj_commute)
  then show ?thesis unfolding dropped_def by blast
qed

lemma dropped_one: "dropped (filter (\<lambda>x. fst x \<noteq> k) bs) bs"
  unfolding dropped_def by (rule exI[of _ "{k}"]) simp

lemma dropped_set: "dropped bs' bs \<Longrightarrow> set bs' \<subseteq> set bs"
  unfolding dropped_def by auto

lemma map_of_filter_key:
  "map_of (filter (\<lambda>x. fst x \<notin> K) bs) k = (if k \<in> K then None else map_of bs k)"
  by (induction bs) auto

lemma map_of_filter_other:
  "k' \<noteq> k \<Longrightarrow> map_of (filter (\<lambda>x. fst x \<noteq> k') bs) k = map_of bs k"
  by (induction bs) auto

lemma dropped_map_of:
  "dropped bs' bs \<Longrightarrow> map_of bs' k = None \<or> map_of bs' k = map_of bs k"
  unfolding dropped_def by (auto simp: map_of_filter_key)

lemma dropped_map_of_None:
  "dropped bs' bs \<Longrightarrow> map_of bs k = None \<Longrightarrow> map_of bs' k = None"
  using dropped_map_of[of bs' bs k] by auto

lemma sub_object_refl: "sub_object ob ob"
  by (cases ob) (simp_all add: dropped_refl)

lemma sub_object_trans: "sub_object ob1 ob \<Longrightarrow> sub_object ob2 ob1 \<Longrightarrow> sub_object ob2 ob"
  by (cases ob; cases ob1; cases ob2) (auto intro: dropped_trans)

lemma shrinks_refl: "shrinks h h"
  by (simp add: shrinks_def sub_object_refl)

lemma shrinks_trans: "shrinks h h1 \<Longrightarrow> shrinks h1 h2 \<Longrightarrow> shrinks h h2"
  unfolding shrinks_def by (auto intro: sub_object_trans)

lemma shrinks_object_at:
  "shrinks h h' \<Longrightarrow> object_at h' a = Some ob' \<Longrightarrow> \<exists>ob. object_at h a = Some ob \<and> sub_object ob' ob"
  by (auto simp: shrinks_def object_at_def split: if_splits)

lemma shrinks_Clear: "shrinks h (Clear_inplace h a name)"
  by (auto simp: shrinks_def Clear_inplace_def object_at_def nth_list_update sub_object_refl
      dropped_one split: option.splits object.splits)

lemma shrinks_Map_Clear: "shrinks h (Map_Clear h a mk)"
  by (auto simp: shrinks_def Map_Clear_def object_at_def nth_list_update sub_object_refl
      dropped_one split: option.splits object.splits)

lemma shrinks_Get_inplace:
  "shrinks h h' \<Longrightarrow> Get_inplace h' a name = None \<or> Get_inplace h' a name = Get_inplace h a name"
proof -
  assume s: "shrinks h h'"
  show ?thesis
  proof (cases "object_at h' a")
    case None
    then show ?thesis by (simp add: Get_inplace_def)
  next
    case (Some ob')
    from shrinks_object_at[OF s Some] obtain ob where
      ob: "object_at h a = Some ob" and sub: "sub_object ob' ob" by blast
    from sub Some ob show ?thesis
      by (cases ob; cases ob') (auto simp: Get_inplace_def dest: dropped_map_of)
  qed
qed

lemma shrinks_Map_Get:
  "shrinks h h' \<Longrightarrow> Map_Get h' a mk = None \<or> Map_Get h' a mk = Map_Get h a mk"
proof -
  assume s: "shrinks h h'"
  show ?thesis
  proof (cases "object_at h' a")
    case None
    then show ?thesis by (simp add: Map_Get_def)
  next
    case (Some ob')
    from shrinks_object_at[OF s Some] obtain ob where
      ob: "object_at h a = Some ob" and sub: "sub_object ob' ob" by blast
    from sub Some ob show ?thesis
      by (cases ob; cases ob') (auto simp: Map_Get_def dest: dropped_map_of)
  qed
qed

lemma shrinks_Get_inplace_None:
  "shrinks h h' \<Longrightarrow> Get_inplace h a name = None \<Longrightarrow> Get_inplace h' a name = None"
  using shrinks_Get_inplace[of h h' a name] by auto


lemma Get_inplace_Clear: "Get_inplace (Clear_inplace h a name) a name = None"
  by (auto simp: Get_inplace_def Clear_inplace_def object_at_def map_of_eq_None_iff
      split: option.splits object.splits)

lemma Map_Get_Map_Clear: "Map_Get (Map_Clear h a mk) a mk = None"
  by (auto simp: Map_Get_def Map_Clear_def object_at_def map_of_eq_None_iff
      split: option.splits object.splits)

lemma object_at_Clear_other:
  "b \<noteq> a \<Longrightarrow> object_at (Clear_inplace h a name) b = object_at h b"
  by (auto simp: Clear_inplace_def object_at_def split: option.splits object.splits)

lemma object_at_Map_Clear_other:
  "b \<noteq> a \<Longrightarrow> object_at (Map_Clear h a mk) b = object_at h b"
  by (auto simp: Map_Clear_def object_at_def split: option.splits object.splits)

lemma Get_inplace_Clear_other:
  "name' \<noteq> name \<Longrightarrow> Get_inplace (Clear_inplace h a name') a' name = Get_inplace h a' name"
proof (cases "a' = a")
  case False
  then show ?thesis by (simp add: Get_inplace_def object_at_Clear_other)
next
  case True
  assume "name' \<noteq> name"
  then show ?thesis unfolding True
    by (auto simp: Get_inplace_def Clear_inplace_def object_at_def map_of_filter_other
        split: option.splits object.splits)
qed



lemma names_of_field:
  "object_at h a = Some (OMessage fs) \<Longrightarrow> name \<in> set (map fst fs) \<or> Get_inplace h a name = None"
  by (auto simp: Get_inplace_def map_of_eq_None_iff)


subsection \<open>Reachable objects\<close>

lemma sub_object_orefs: "sub_object ob' ob \<Longrightarrow> orefs ob' \<subseteq> orefs ob"
  by (cases ob; cases ob') (auto dest: dropped_set)

lemma reach_mono: "A \<subseteq> B \<Longrightarrow> reach h A \<subseteq> reach h B"
proof
  fix x
  assume "A \<subseteq> B" and "x \<in> reach h A"
  from this(2,1) show "x \<in> reach h B"
    by (induction rule: reach.induct) (auto intro: reach.intros)
qed

lemma reach_closed: "reach h (reach h A) \<subseteq> reach h A"
proof
  fix x
  assume "x \<in> reach h (reach h A)"
  then show "x \<in> reach h A"
    by (induction rule: reach.induct) (auto intro: reach.intros)
qed

lemma reach_subset: "B \<subseteq> reach h A \<Longrightarrow> reach h B \<subseteq> reach h A"
  using reach_mono[of B "reach h A" h] reach_closed[of h A] by blast

lemma reach_shrinks:
  assumes "shrinks h h'"
  shows "reach h' A \<subseteq> reach h A"
proof
  fix x
  assume "x \<in> reach h' A"
  then show "x \<in> reach h A"
  proof (induction rule: reach.induct)
    case (start a)
    then show ?case by (rule reach.start)
  next
    case (step a ob' b)
    from shrinks_object_at[OF assms step.hyps(2)] obtain ob where
      ob: "object_at h a = Some ob" and sub: "sub_object ob' ob" by blast
    from sub_object_orefs[OF sub] step.hyps(3) have "b \<in> orefs ob" by blast
    with step.IH ob show ?case by (rule reach.step)
  qed
qed

lemma reach_bound:
  assumes "A \<subseteq> S" and "\<And>a ob. a \<in> S \<Longrightarrow> object_at h a = Some ob \<Longrightarrow> orefs ob \<subseteq> S"
  shows "reach h A \<subseteq> S"
proof
  fix x
  assume "x \<in> reach h A"
  then show "x \<in> S"
    by (induction rule: reach.induct) (use assms in blast)+
qed


lemma reach_child:
  assumes "shrinks h h1" and "a \<in> reach h A" and "object_at h1 a = Some ob1" and "B \<subseteq> orefs ob1"
  shows "reach h1 B \<subseteq> reach h A"
proof -
  from shrinks_object_at[OF assms(1,3)] obtain ob where
    ob: "object_at h a = Some ob" and sub: "sub_object ob1 ob" by blast
  have "B \<subseteq> reach h A"
  proof
    fix b assume "b \<in> B"
    with assms(4) sub_object_orefs[OF sub] have "b \<in> orefs ob" by blast
    with assms(2) ob show "b \<in> reach h A" by (rule reach.step)
  qed
  then have "reach h B \<subseteq> reach h A" by (rule reach_subset)
  with reach_shrinks[OF assms(1), of B] show ?thesis by blast
qed

lemma reach_field_subset:
  assumes "a \<in> reach h A" and "object_at h a = Some ob" and "B \<subseteq> orefs ob"
  shows "reach h B \<subseteq> reach h A"
  using reach_child[OF shrinks_refl assms] .

lemma Get_inplace_refs:
  "Get_inplace h a name = Some v \<Longrightarrow> \<exists>ob. object_at h a = Some ob \<and> hrefs v \<subseteq> orefs ob"
  by (auto simp: Get_inplace_def split: option.splits object.splits dest!: map_of_SomeD)

lemma Map_Get_refs:
  "Map_Get h a mk = Some v \<Longrightarrow> \<exists>ob. object_at h a = Some ob \<and> hrefs v \<subseteq> orefs ob"
  by (auto simp: Map_Get_def split: option.splits object.splits dest!: map_of_SomeD)

lemma changes_within_refl: "changes_within S h h"
  by (simp add: changes_within_def shrinks_refl)

lemma changes_within_trans:
  "changes_within S h h1 \<Longrightarrow> changes_within S h1 h2 \<Longrightarrow> changes_within S h h2"
  unfolding changes_within_def by (auto intro: shrinks_trans)

lemma changes_within_mono: "changes_within S h h' \<Longrightarrow> S \<subseteq> T \<Longrightarrow> changes_within T h h'"
  unfolding changes_within_def by auto

lemma changes_within_Clear: "a \<in> S \<Longrightarrow> changes_within S h (Clear_inplace h a name)"
  unfolding changes_within_def by (auto simp: shrinks_Clear intro!: object_at_Clear_other)

lemma changes_within_Map_Clear: "a \<in> S \<Longrightarrow> changes_within S h (Map_Clear h a mk)"
  unfolding changes_within_def by (auto simp: shrinks_Map_Clear intro!: object_at_Map_Clear_other)

subsection \<open>Iteration over a store\<close>

lemma for_each_invariant:
  assumes "for_each f xs h = Inr h'" and "I h"
    and "\<And>x h1 h2. x \<in> set xs \<Longrightarrow> I h1 \<Longrightarrow> f x h1 = Inr h2 \<Longrightarrow> I h2"
  shows "I h'"
  using assms
proof (induction xs arbitrary: h)
  case Nil
  then show ?case by simp
next
  case (Cons x xs)
  from Cons.prems(1) obtain h1 where 1: "f x h = Inr h1"
    and 2: "for_each f xs h1 = Inr h'"
    by (auto split: option.splits sum.splits)
  from Cons.prems(3)[of x h h1] Cons.prems(2) 1 have "I h1" by simp
  show ?case
  proof (rule Cons.IH[OF 2 \<open>I h1\<close>])
    fix y h2 h3
    assume "y \<in> set xs" and "I h2" and "f y h2 = Inr h3"
    then show "I h3" using Cons.prems(3)[of y h2 h3] by simp
  qed
qed

lemma for_each_establish:
  assumes "for_each f xs h = Inr h'"
    and "(J h \<and> x0 \<in> set xs) \<or> Q h"
    and "\<And>x h1 h2. x \<in> set xs \<Longrightarrow> Q h1 \<Longrightarrow> f x h1 = Inr h2 \<Longrightarrow> Q h2"
    and "\<And>x h1 h2. x \<in> set xs \<Longrightarrow> x \<noteq> x0 \<Longrightarrow> J h1 \<Longrightarrow> f x h1 = Inr h2 \<Longrightarrow> J h2"
    and "\<And>h1 h2. J h1 \<Longrightarrow> f x0 h1 = Inr h2 \<Longrightarrow> Q h2"
  shows "Q h'"
  using assms(1,2,3,4)
proof (induction xs arbitrary: h)
  case Nil
  then show ?case by simp
next
  case (Cons x xs)
  from Cons.prems(1) obtain h1 where 1: "f x h = Inr h1"
    and 2: "for_each f xs h1 = Inr h'"
    by (auto split: option.splits sum.splits)
  have "(J h1 \<and> x0 \<in> set xs) \<or> Q h1"
  proof (cases "Q h")
    case True
    with Cons.prems(3)[of x h h1] 1 show ?thesis by simp
  next
    case False
    with Cons.prems(2) have J: "J h" and mem: "x0 \<in> set (x # xs)" by auto
    show ?thesis
    proof (cases "x = x0")
      case True
      with assms(5)[OF J] 1 show ?thesis by simp
    next
      case False
      with Cons.prems(4)[of x h h1] J 1 mem show ?thesis by simp
    qed
  qed
  then show ?case
  proof (rule Cons.IH[OF 2])
    fix y h2 h3
    assume "y \<in> set xs" and "Q h2" and "f y h2 = Inr h3"
    then show "Q h3" using Cons.prems(3)[of y h2 h3] by simp
  next
    fix y h2 h3
    assume "y \<in> set xs" and "y \<noteq> x0" and "J h2" and "f y h2 = Inr h3"
    then show "J h3" using Cons.prems(4)[of y h2 h3] by simp
  qed
qed

lemma for_each_frame:
  assumes "for_each f xs h = Inr h'"
    and "\<And>x h1 h2. x \<in> set xs \<Longrightarrow> shrinks h h1 \<Longrightarrow> f x h1 = Inr h2 \<Longrightarrow>
           changes_within S h1 h2"
  shows "changes_within S h h'"
proof (rule for_each_invariant[where I = "\<lambda>h1. changes_within S h h1", OF assms(1)])
  show "changes_within S h h" by (rule changes_within_refl)
next
  fix x h1 h2
  assume x: "x \<in> set xs" and I: "changes_within S h h1" and f: "f x h1 = Inr h2"
  from I have "shrinks h h1" by (simp add: changes_within_def)
  from assms(2)[OF x this f] I show "changes_within S h h2"
    by (rule changes_within_trans[rotated])
qed

lemma for_each_id:
  "(\<And>x. x \<in> set xs \<Longrightarrow> f x h = Inr h) \<Longrightarrow> for_each f xs h = Inr h"
  by (induction xs) simp_all

lemma for_each_shrinks:
  assumes "for_each f xs h = Inr h'"
    and "\<forall>x h1 h2. f x h1 = Inr h2 \<longrightarrow> shrinks h1 h2"
  shows "shrinks h h'"
proof (rule for_each_invariant[where I = "\<lambda>h1. shrinks h h1", OF assms(1)])
  show "shrinks h h" by (rule shrinks_refl)
next
  fix x h1 h2
  assume "x \<in> set xs" and "shrinks h h1" and "f x h1 = Inr h2"
  with assms(2) show "shrinks h h2" by (auto intro: shrinks_trans)
qed

lemma for_each_visited:
  assumes "for_each f xs h = Inr h'"
    and "\<forall>x h1 h2. f x h1 = Inr h2 \<longrightarrow> shrinks h1 h2"
    and "x \<in> set xs"
  shows "\<exists>h1 h2. f x h1 = Inr h2 \<and> shrinks h h1 \<and> shrinks h2 h'"
  using assms
proof (induction xs arbitrary: h)
  case Nil
  then show ?case by simp
next
  case (Cons y ys)
  from Cons.prems(1) obtain h1 where 1: "f y h = Inr h1"
    and 2: "for_each f ys h1 = Inr h'"
    by (auto split: sum.splits)
  from Cons.prems(2) 1 have s1: "shrinks h h1" by simp
  note st = Cons.prems(2)
  show ?case
  proof (cases "x = y")
    case True
    from for_each_shrinks[OF 2 st] have "shrinks h1 h'" by simp
    with 1 True show ?thesis by (auto intro: shrinks_refl)
  next
    case False
    with Cons.prems(3) have "x \<in> set ys" by simp
    from Cons.IH[OF 2 st this] obtain h2 h3 where
      a: "f x h2 = Inr h3" and b: "shrinks h1 h2" and c: "shrinks h3 h'" by (elim exE conjE)
    from s1 b have "shrinks h h2" by (rule shrinks_trans)
    with a c show ?thesis by (intro exI conjI)
  qed
qed

lemma for_each_returns:
  assumes "shrinks h0 h"
    and "\<forall>x h1. x \<in> set xs \<and> shrinks h0 h1 \<longrightarrow> (\<exists>h2. f x h1 = Inr h2 \<and> shrinks h1 h2)"
  shows "\<exists>h'. for_each f xs h = Inr h'"
  using assms
proof (induction xs arbitrary: h)
  case Nil
  show ?case by simp
next
  case (Cons x xs)
  from Cons.prems obtain h1 where 1: "f x h = Inr h1" and s: "shrinks h h1" by auto
  from Cons.prems(1) s have "shrinks h0 h1" by (rule shrinks_trans)
  from Cons.IH[OF this] Cons.prems(2) obtain h' where "for_each f xs h1 = Inr h'" by auto
  with 1 show ?case by simp
qed

subsection \<open>A call changes only objects it can reach, and only by clearing\<close>

lemma Filter_elem_inplace_frame:
  assumes IH: "\<And>msk a h h'. size msk < k \<Longrightarrow> NestedMask_Filter_inplace msk a h = Inr h' \<Longrightarrow>
                 changes_within (reach h {a}) h h'"
    and sz: "size m < k"
    and f: "Filter_elem_inplace m x h1 = Inr h2"
  shows "changes_within (reach h1 (hrefs x)) h1 h2"
proof (cases x)
  case (HMessage kd i)
  with f IH[of m i h1 h2, OF sz] show ?thesis by (simp add: Filter_elem_inplace_def)
qed (use f in \<open>simp_all add: Filter_elem_inplace_def\<close>)

lemma Filter_entry_inplace_frame:
  assumes IH: "\<And>msk a h h'. size msk < k \<Longrightarrow> NestedMask_Filter_inplace msk a h = Inr h' \<Longrightarrow>
                 changes_within (reach h {a}) h h'"
    and sz: "size m < k"
    and f: "Filter_entry_inplace m xmap mk h1 = Inr h2"
  shows "changes_within (reach h1 {xmap}) h1 h2"
proof (cases "Map_Get h1 xmap mk")
  case None
  with f show ?thesis by (simp add: Filter_entry_inplace_def changes_within_refl)
next
  case (Some mv)
  show ?thesis
  proof (cases "fmlookup (children m) (MapKey_String mk)")
    case None
    with f Some have "h2 = Map_Clear h1 xmap mk" by (simp add: Filter_entry_inplace_def)
    then show ?thesis by (simp add: changes_within_Map_Clear reach.start)
  next
    case mi: (Some mi)
    show ?thesis
    proof (cases "\<exists>kd i. mv = HMessage kd i \<and> children mi \<noteq> fmempty")
      case False
      with f Some mi have "h2 = h1"
        by (cases mv) (auto simp: Filter_entry_inplace_def split: if_splits)
      then show ?thesis by (simp add: changes_within_refl)
    next
      case True
      then obtain kd i where mv: "mv = HMessage kd i" and ne: "children mi \<noteq> fmempty" by blast
      with f Some mi have "NestedMask_Filter_inplace mi i h1 = Inr h2"
        by (simp add: Filter_entry_inplace_def)
      then have c: "changes_within (reach h1 {i}) h1 h2" by (rule IH[rotated]) (use size_child[OF mi] sz in simp)
      from Map_Get_refs[OF Some] mv obtain ob where
        ob: "object_at h1 xmap = Some ob" and "i \<in> orefs ob" by auto
      then have "i \<in> reach h1 {xmap}"
        using reach.step[of xmap h1 "{xmap}" ob i] by (simp add: reach.start)
      then have "reach h1 {i} \<subseteq> reach h1 {xmap}" by (simp add: reach_subset)
      with c show ?thesis by (rule changes_within_mono)
    qed
  qed
qed

lemma Filter_field_inplace_present:
  assumes IH: "\<And>msk a h h'. size msk < k \<Longrightarrow> NestedMask_Filter_inplace msk a h = Inr h' \<Longrightarrow>
                 changes_within (reach h {a}) h h'"
    and sz: "size msk \<le> k"
    and v: "Get_inplace h1 a name = Some v"
    and m: "fmlookup (children msk) name = Some m"
    and f: "Filter_field_inplace msk a name h1 = Inr h2"
  shows "changes_within (reach h1 (hrefs v)) h1 h2"
proof -
  from size_child[OF m] sz have szm: "size m < k" by simp
  show ?thesis
  proof (cases "children m = fmempty")
  case True
  with f v m show ?thesis by (simp add: Filter_field_inplace_def changes_within_refl)
next
  case nonleaf: False
  show ?thesis
  proof (cases v)
    case (HScalar s)
    with f v m nonleaf show ?thesis by (simp add: Filter_field_inplace_def changes_within_refl)
  next
    case (HMessage kd i)
    with f v m nonleaf IH[of m i h1 h2, OF szm] show ?thesis
      by (auto simp: Filter_field_inplace_def changes_within_refl split: if_splits)
  next
    case (HList l)
    with f v m nonleaf have fe: "for_each (Filter_elem_inplace m) l h1 = Inr h2"
      by (simp add: Filter_field_inplace_def)
    show ?thesis
    proof (rule for_each_frame[OF fe])
      fix x h3 h4
      assume x: "x \<in> set l" and s: "shrinks h1 h3"
        and fx: "Filter_elem_inplace m x h3 = Inr h4"
      from Filter_elem_inplace_frame[OF IH szm fx]
      have c: "changes_within (reach h3 (hrefs x)) h3 h4" .
      from x HList have "hrefs x \<subseteq> hrefs v" by auto
      then have "reach h1 (hrefs x) \<subseteq> reach h1 (hrefs v)" by (rule reach_mono)
      with reach_shrinks[OF s, of "hrefs x"] have "reach h3 (hrefs x) \<subseteq> reach h1 (hrefs v)"
        by blast
      with c show "changes_within (reach h1 (hrefs v)) h3 h4" by (rule changes_within_mono)
    qed
  next
    case (HMap xmap)
    show ?thesis
    proof (cases "\<exists>es. object_at h1 xmap = Some (OMap es)")
      case False
      with f v m nonleaf HMap have "h2 = h1"
        by (auto simp: Filter_field_inplace_def split: option.splits object.splits)
      then show ?thesis by (simp add: changes_within_refl)
    next
      case True
      then obtain es where es: "object_at h1 xmap = Some (OMap es)" by blast
      with f v m nonleaf HMap
      have fe: "for_each (Filter_entry_inplace m xmap) (map fst es) h1 = Inr h2"
        by (simp add: Filter_field_inplace_def)
      show ?thesis
      proof (rule for_each_frame[OF fe])
        fix mk h3 h4
        assume s: "shrinks h1 h3"
          and fx: "Filter_entry_inplace m xmap mk h3 = Inr h4"
        from Filter_entry_inplace_frame[OF IH szm fx]
        have c: "changes_within (reach h3 {xmap}) h3 h4" .
        from reach_shrinks[OF s, of "{xmap}"] HMap
        have "reach h3 {xmap} \<subseteq> reach h1 (hrefs v)" by simp
        with c show "changes_within (reach h1 (hrefs v)) h3 h4" by (rule changes_within_mono)
      qed
    qed
  qed
qed
qed

lemma Filter_field_inplace_absent:
  assumes "fmlookup (children msk) name = None"
    and "Filter_field_inplace msk a name h1 = Inr h2"
  shows "h2 = h1 \<or> h2 = Clear_inplace h1 a name"
  using assms by (auto simp: Filter_field_inplace_def split: option.splits)

lemma Filter_field_inplace_frame:
  assumes IH: "\<And>msk a h h'. size msk < k \<Longrightarrow> NestedMask_Filter_inplace msk a h = Inr h' \<Longrightarrow>
                 changes_within (reach h {a}) h h'"
    and sz: "size msk \<le> k"
    and f: "Filter_field_inplace msk a name h1 = Inr h2"
  shows "changes_within (reach h1 {a}) h1 h2"
proof (cases "Get_inplace h1 a name")
  case None
  with f show ?thesis by (simp add: Filter_field_inplace_def changes_within_refl)
next
  case (Some v)
  show ?thesis
  proof (cases "fmlookup (children msk) name")
    case None
    from Filter_field_inplace_absent[OF None f] show ?thesis
      by (auto simp: changes_within_refl changes_within_Clear reach.start)
  next
    case m: (Some m)
    from Filter_field_inplace_present[OF IH sz Some m f]
    have c: "changes_within (reach h1 (hrefs v)) h1 h2" .
    from Get_inplace_refs[OF Some] obtain ob where
      ob: "object_at h1 a = Some ob" and sub: "hrefs v \<subseteq> orefs ob" by blast
    have "reach h1 (hrefs v) \<subseteq> reach h1 {a}"
      using reach_child[OF shrinks_refl _ ob sub, of "{a}"] by (simp add: reach.start)
    with c show ?thesis by (rule changes_within_mono)
  qed
qed

lemma NestedMask_Filter_inplace_frame:
  "NestedMask_Filter_inplace msk a h = Inr h' \<Longrightarrow> changes_within (reach h {a}) h h'"
proof (induction "size msk" arbitrary: msk a h h' rule: less_induct)
  case less
  then have IH: "\<And>m a h h'. size m < size msk \<Longrightarrow> NestedMask_Filter_inplace m a h = Inr h' \<Longrightarrow>
      changes_within (reach h {a}) h h'" by blast
  show ?case
  proof (cases "children msk = fmempty \<or> (\<forall>fs. object_at h a \<noteq> Some (OMessage fs))")
    case True
    with less.prems have "h' = h"
      by (auto simp: NestedMask_Filter_inplace_unfold split: option.splits object.splits)
    then show ?thesis by (simp add: changes_within_refl)
  next
    case False
    then obtain fs where fs: "object_at h a = Some (OMessage fs)" by blast
    with False less.prems
    have fe: "for_each (Filter_field_inplace msk a) (map fst fs) h = Inr h'"
      by (simp add: NestedMask_Filter_inplace_unfold)
    show ?thesis
    proof (rule for_each_frame[OF fe])
      fix name h1 h2
      assume s: "shrinks h h1" and f: "Filter_field_inplace msk a name h1 = Inr h2"
      from Filter_field_inplace_frame[OF IH order_refl f]
      have c: "changes_within (reach h1 {a}) h1 h2" .
      from c reach_shrinks[OF s, of "{a}"] show "changes_within (reach h {a}) h1 h2"
        by (rule changes_within_mono)
    qed
  qed
qed

lemma Prune_elem_inplace_frame:
  assumes IH: "\<And>msk a h h'. size msk < k \<Longrightarrow> NestedMask_Prune_inplace msk a h = Inr h' \<Longrightarrow>
                 changes_within (reach h {a}) h h'"
    and sz: "size m < k"
    and f: "Prune_elem_inplace m x h1 = Inr h2"
  shows "changes_within (reach h1 (hrefs x)) h1 h2"
proof (cases x)
  case (HMessage kd i)
  with f IH[of m i h1 h2, OF sz] show ?thesis by (simp add: Prune_elem_inplace_def)
qed (use f in \<open>simp_all add: Prune_elem_inplace_def\<close>)

lemma Prune_entry_inplace_frame:
  assumes IH: "\<And>msk a h h'. size msk < k \<Longrightarrow> NestedMask_Prune_inplace msk a h = Inr h' \<Longrightarrow>
                 changes_within (reach h {a}) h h'"
    and sz: "size m < k"
    and f: "Prune_entry_inplace m xmap mk h1 = Inr h2"
  shows "changes_within (reach h1 {xmap}) h1 h2"
proof (cases "Map_Get h1 xmap mk")
  case None
  with f show ?thesis by (simp add: Prune_entry_inplace_def changes_within_refl)
next
  case (Some mv)
  show ?thesis
  proof (cases "fmlookup (children m) (MapKey_String mk)")
    case None
    with f Some have "h2 = h1" by (simp add: Prune_entry_inplace_def)
    then show ?thesis by (simp add: changes_within_refl)
  next
    case mi: (Some mi)
    show ?thesis
    proof (cases "\<exists>kd i. mv = HMessage kd i \<and> children mi \<noteq> fmempty")
      case False
      with f Some mi have "h2 = Map_Clear h1 xmap mk"
        by (cases mv) (auto simp: Prune_entry_inplace_def split: if_splits)
      then show ?thesis by (simp add: changes_within_Map_Clear reach.start)
    next
      case True
      then obtain kd i where mv: "mv = HMessage kd i" and ne: "children mi \<noteq> fmempty" by blast
      with f Some mi have "NestedMask_Prune_inplace mi i h1 = Inr h2"
        by (simp add: Prune_entry_inplace_def)
      then have c: "changes_within (reach h1 {i}) h1 h2" by (rule IH[rotated]) (use size_child[OF mi] sz in simp)
      from Map_Get_refs[OF Some] mv obtain ob where
        ob: "object_at h1 xmap = Some ob" and "i \<in> orefs ob" by auto
      then have "i \<in> reach h1 {xmap}"
        using reach.step[of xmap h1 "{xmap}" ob i] by (simp add: reach.start)
      then have "reach h1 {i} \<subseteq> reach h1 {xmap}" by (simp add: reach_subset)
      with c show ?thesis by (rule changes_within_mono)
    qed
  qed
qed

lemma Prune_field_inplace_nonleaf:
  assumes IH: "\<And>msk a h h'. size msk < k \<Longrightarrow> NestedMask_Prune_inplace msk a h = Inr h' \<Longrightarrow>
                 changes_within (reach h {a}) h h'"
    and sz: "size msk \<le> k"
    and v: "Get_inplace h1 a name = Some v"
    and m: "fmlookup (children msk) name = Some m"
    and nonleaf: "children m \<noteq> fmempty"
    and f: "Prune_field_inplace msk a name h1 = Inr h2"
  shows "changes_within (reach h1 (hrefs v)) h1 h2"
proof -
  from size_child[OF m] sz have szm: "size m < k" by simp
  show ?thesis
  proof (cases v)
  case (HScalar s)
  with f v m nonleaf show ?thesis by (simp add: Prune_field_inplace_def changes_within_refl)
next
  case (HMessage kd i)
  with f v m nonleaf IH[of m i h1 h2, OF szm] show ?thesis
    by (auto simp: Prune_field_inplace_def changes_within_refl split: if_splits)
next
  case (HList l)
  with f v m nonleaf have fe: "for_each (Prune_elem_inplace m) l h1 = Inr h2"
    by (simp add: Prune_field_inplace_def)
  show ?thesis
  proof (rule for_each_frame[OF fe])
    fix x h3 h4
    assume x: "x \<in> set l" and s: "shrinks h1 h3"
      and fx: "Prune_elem_inplace m x h3 = Inr h4"
    from Prune_elem_inplace_frame[OF IH szm fx]
    have c: "changes_within (reach h3 (hrefs x)) h3 h4" .
    from x HList have "hrefs x \<subseteq> hrefs v" by auto
    then have "reach h1 (hrefs x) \<subseteq> reach h1 (hrefs v)" by (rule reach_mono)
    with reach_shrinks[OF s, of "hrefs x"] have "reach h3 (hrefs x) \<subseteq> reach h1 (hrefs v)"
      by blast
    with c show "changes_within (reach h1 (hrefs v)) h3 h4" by (rule changes_within_mono)
  qed
next
  case (HMap xmap)
  show ?thesis
  proof (cases "\<exists>es. object_at h1 xmap = Some (OMap es)")
    case False
    with f v m nonleaf HMap have "h2 = h1"
      by (auto simp: Prune_field_inplace_def split: option.splits object.splits)
    then show ?thesis by (simp add: changes_within_refl)
  next
    case True
    then obtain es where es: "object_at h1 xmap = Some (OMap es)" by blast
    with f v m nonleaf HMap
    have fe: "for_each (Prune_entry_inplace m xmap) (map fst es) h1 = Inr h2"
      by (simp add: Prune_field_inplace_def)
    show ?thesis
    proof (rule for_each_frame[OF fe])
      fix mk h3 h4
      assume s: "shrinks h1 h3"
        and fx: "Prune_entry_inplace m xmap mk h3 = Inr h4"
      from Prune_entry_inplace_frame[OF IH szm fx]
      have c: "changes_within (reach h3 {xmap}) h3 h4" .
      from reach_shrinks[OF s, of "{xmap}"] HMap
      have "reach h3 {xmap} \<subseteq> reach h1 (hrefs v)" by simp
      with c show "changes_within (reach h1 (hrefs v)) h3 h4" by (rule changes_within_mono)
    qed
  qed
qed
qed

lemma Prune_field_inplace_absent:
  assumes "fmlookup (children msk) name = None"
    and "Prune_field_inplace msk a name h1 = Inr h2"
  shows "h2 = h1"
  using assms by (auto simp: Prune_field_inplace_def split: option.splits)

lemma Prune_field_inplace_leaf:
  assumes "fmlookup (children msk) name = Some m" and "children m = fmempty"
    and "Prune_field_inplace msk a name h1 = Inr h2"
  shows "h2 = h1 \<or> h2 = Clear_inplace h1 a name"
  using assms by (auto simp: Prune_field_inplace_def split: option.splits)

lemma Prune_field_inplace_frame:
  assumes IH: "\<And>msk a h h'. size msk < k \<Longrightarrow> NestedMask_Prune_inplace msk a h = Inr h' \<Longrightarrow>
                 changes_within (reach h {a}) h h'"
    and sz: "size msk \<le> k"
    and f: "Prune_field_inplace msk a name h1 = Inr h2"
  shows "changes_within (reach h1 {a}) h1 h2"
proof (cases "Get_inplace h1 a name")
  case None
  with f show ?thesis by (simp add: Prune_field_inplace_def changes_within_refl)
next
  case (Some v)
  show ?thesis
  proof (cases "fmlookup (children msk) name")
    case None
    from Prune_field_inplace_absent[OF None f] show ?thesis
      by (simp add: changes_within_refl)
  next
    case m: (Some m)
    show ?thesis
    proof (cases "children m = fmempty")
      case True
      from Prune_field_inplace_leaf[OF m True f] show ?thesis
        by (auto simp: changes_within_refl changes_within_Clear reach.start)
    next
      case False
      from Prune_field_inplace_nonleaf[OF IH sz Some m False f]
      have c: "changes_within (reach h1 (hrefs v)) h1 h2" .
      from Get_inplace_refs[OF Some] obtain ob where
        ob: "object_at h1 a = Some ob" and sub: "hrefs v \<subseteq> orefs ob" by blast
      have "reach h1 (hrefs v) \<subseteq> reach h1 {a}"
        using reach_child[OF shrinks_refl _ ob sub, of "{a}"] by (simp add: reach.start)
      with c show ?thesis by (rule changes_within_mono)
    qed
  qed
qed

lemma NestedMask_Prune_inplace_frame:
  "NestedMask_Prune_inplace msk a h = Inr h' \<Longrightarrow> changes_within (reach h {a}) h h'"
proof (induction "size msk" arbitrary: msk a h h' rule: less_induct)
  case less
  then have IH: "\<And>m a h h'. size m < size msk \<Longrightarrow> NestedMask_Prune_inplace m a h = Inr h' \<Longrightarrow>
      changes_within (reach h {a}) h h'" by blast
  show ?case
  proof (cases "children msk = fmempty \<or> (\<forall>fs. object_at h a \<noteq> Some (OMessage fs))")
    case True
    with less.prems have "h' = h"
      by (auto simp: NestedMask_Prune_inplace_unfold split: option.splits object.splits)
    then show ?thesis by (simp add: changes_within_refl)
  next
    case False
    then obtain fs where fs: "object_at h a = Some (OMessage fs)" by blast
    with False less.prems
    have fe: "for_each (Prune_field_inplace msk a) (map fst fs) h = Inr h'"
      by (simp add: NestedMask_Prune_inplace_unfold)
    show ?thesis
    proof (rule for_each_frame[OF fe])
      fix name h1 h2
      assume s: "shrinks h h1" and f: "Prune_field_inplace msk a name h1 = Inr h2"
      from Prune_field_inplace_frame[OF IH order_refl f]
      have c: "changes_within (reach h1 {a}) h1 h2" .
      from c reach_shrinks[OF s, of "{a}"] show "changes_within (reach h {a}) h1 h2"
        by (rule changes_within_mono)
    qed
  qed
qed

lemma Filter_entry_inplace_shrinks:
  assumes "Filter_entry_inplace m xmap mk h1 = Inr h2"
  shows "shrinks h1 h2"
proof -
  have IH: "\<And>msk a h h'. size msk < Suc (size m) \<Longrightarrow> NestedMask_Filter_inplace msk a h = Inr h' \<Longrightarrow>
      changes_within (reach h {a}) h h'"
    by (rule NestedMask_Filter_inplace_frame)
  from Filter_entry_inplace_frame[OF IH _ assms] show ?thesis by (simp add: changes_within_def)
qed

lemma Prune_entry_inplace_shrinks:
  assumes "Prune_entry_inplace m xmap mk h1 = Inr h2"
  shows "shrinks h1 h2"
proof -
  have IH: "\<And>msk a h h'. size msk < Suc (size m) \<Longrightarrow> NestedMask_Prune_inplace msk a h = Inr h' \<Longrightarrow>
      changes_within (reach h {a}) h h'"
    by (rule NestedMask_Prune_inplace_frame)
  from Prune_entry_inplace_frame[OF IH _ assms] show ?thesis by (simp add: changes_within_def)
qed


lemma Filter_elem_inplace_shrinks:
  assumes "Filter_elem_inplace m x h1 = Inr h2"
  shows "shrinks h1 h2"
proof -
  have IH: "\<And>msk a h h'. size msk < Suc (size m) \<Longrightarrow> NestedMask_Filter_inplace msk a h = Inr h' \<Longrightarrow>
      changes_within (reach h {a}) h h'"
    by (rule NestedMask_Filter_inplace_frame)
  from Filter_elem_inplace_frame[OF IH _ assms] show ?thesis by (simp add: changes_within_def)
qed

lemma NestedMask_Filter_inplace_shrinks:
  "NestedMask_Filter_inplace msk a h = Inr h' \<Longrightarrow> shrinks h h'"
  using NestedMask_Filter_inplace_frame by (simp add: changes_within_def)

lemma NestedMask_Prune_inplace_shrinks:
  "NestedMask_Prune_inplace msk a h = Inr h' \<Longrightarrow> shrinks h h'"
  using NestedMask_Prune_inplace_frame by (simp add: changes_within_def)

lemma shrinks_Get_inplace_Some:
  "shrinks h h' \<Longrightarrow> Get_inplace h' a name = Some v \<Longrightarrow> Get_inplace h a name = Some v"
  using shrinks_Get_inplace[of h h' a name] by auto

lemma shrinks_Map_Get_Some:
  "shrinks h h' \<Longrightarrow> Map_Get h' a mk = Some v \<Longrightarrow> Map_Get h a mk = Some v"
  using shrinks_Map_Get[of h h' a mk] by auto

subsection \<open>The callback on a field, and the other fields\<close>

lemma field_step_Filter: "field_step (Filter_field_inplace msk a) a"
  unfolding field_step_def
proof (intro allI impI)
  have IH: "\<And>m a h h'. size m < size msk \<Longrightarrow> NestedMask_Filter_inplace m a h = Inr h' \<Longrightarrow>
      changes_within (reach h {a}) h h'"
    by (rule NestedMask_Filter_inplace_frame)
  fix name h1 h2
  assume f: "Filter_field_inplace msk a name h1 = Inr h2"
  show "h2 = h1 \<or> h2 = Clear_inplace h1 a name
        \<or> (\<exists>v. Get_inplace h1 a name = Some v \<and> changes_within (reach h1 (hrefs v)) h1 h2)"
  proof (cases "Get_inplace h1 a name")
    case None
    with f show ?thesis by (simp add: Filter_field_inplace_def)
  next
    case (Some v)
    show ?thesis
    proof (cases "fmlookup (children msk) name")
      case None
      from Filter_field_inplace_absent[OF None f] show ?thesis by blast
    next
      case m: (Some m)
      from Filter_field_inplace_present[OF IH order_refl Some m f]
      have "changes_within (reach h1 (hrefs v)) h1 h2" .
      with Some show ?thesis by simp
    qed
  qed
qed

lemma field_step_Prune: "field_step (Prune_field_inplace msk a) a"
  unfolding field_step_def
proof (intro allI impI)
  have IH: "\<And>m a h h'. size m < size msk \<Longrightarrow> NestedMask_Prune_inplace m a h = Inr h' \<Longrightarrow>
      changes_within (reach h {a}) h h'"
    by (rule NestedMask_Prune_inplace_frame)
  fix name h1 h2
  assume f: "Prune_field_inplace msk a name h1 = Inr h2"
  show "h2 = h1 \<or> h2 = Clear_inplace h1 a name
        \<or> (\<exists>v. Get_inplace h1 a name = Some v \<and> changes_within (reach h1 (hrefs v)) h1 h2)"
  proof (cases "Get_inplace h1 a name")
    case None
    with f show ?thesis by (simp add: Prune_field_inplace_def)
  next
    case (Some v)
    show ?thesis
    proof (cases "fmlookup (children msk) name")
      case None
      from Prune_field_inplace_absent[OF None f] show ?thesis by blast
    next
      case m: (Some m)
      show ?thesis
      proof (cases "children m = fmempty")
        case True
        from Prune_field_inplace_leaf[OF m True f] show ?thesis by blast
      next
        case False
        from Prune_field_inplace_nonleaf[OF IH order_refl Some m False f]
        have "changes_within (reach h1 (hrefs v)) h1 h2" .
        with Some show ?thesis by simp
      qed
    qed
  qed
qed

lemma field_step_shrinks:
  "field_step f a \<Longrightarrow> f name h1 = Inr h2 \<Longrightarrow> shrinks h1 h2"
  unfolding field_step_def
  by (metis shrinks_refl shrinks_Clear changes_within_def)

lemma others_region_field:
  assumes "Get_inplace h a name' = Some v" and "name' \<noteq> name"
  shows "reach h (hrefs v) \<subseteq> others_region h a name"
proof -
  from assms(1) obtain fs where fs: "object_at h a = Some (OMessage fs)"
    and mem: "(name', v) \<in> set fs"
    by (auto simp: Get_inplace_def split: option.splits object.splits dest!: map_of_SomeD)
  from mem assms(2) have "hrefs v \<subseteq> (\<Union>x\<in>set fs. if fst x \<noteq> name then hrefs (snd x) else {})"
    by force
  then show ?thesis unfolding others_region_def fs by (simp add: reach_mono)
qed


lemma for_each_field_kept:
  assumes st: "field_step f a"
    and fe: "for_each f names h = Inr h'"
    and un: "unshared_field h a name"
    and own: "\<And>h1 h2. f name h1 = Inr h2 \<Longrightarrow> h2 = h1"
  shows "Get_inplace h' a name = Get_inplace h a name
         \<and> (\<forall>c\<in>field_region h a name. object_at h' c = object_at h c)"
proof -
  let ?I = "\<lambda>h1. shrinks h h1 \<and> Get_inplace h1 a name = Get_inplace h a name
              \<and> (\<forall>c\<in>field_region h a name. object_at h1 c = object_at h c)"
  have "?I h'"
  proof (rule for_each_invariant[where I = ?I, OF fe])
    show "?I h" by (simp add: shrinks_refl)
  next
    fix x h1 h2
    assume I: "?I h1" and f: "f x h1 = Inr h2"
    from field_step_shrinks[OF st f] I have s2: "shrinks h h2" by (auto intro: shrinks_trans)
    show "?I h2"
    proof (cases "x = name")
      case True
      with own f have "h2 = h1" by blast
      with I show ?thesis by simp
    next
      case False
      from st f have "h2 = h1 \<or> h2 = Clear_inplace h1 a x
          \<or> (\<exists>v. Get_inplace h1 a x = Some v \<and> changes_within (reach h1 (hrefs v)) h1 h2)"
        unfolding field_step_def by blast
      then consider "h2 = h1" | "h2 = Clear_inplace h1 a x"
        | v where "Get_inplace h1 a x = Some v" "changes_within (reach h1 (hrefs v)) h1 h2"
        by blast
      then show ?thesis
      proof cases
        case 1
        with I show ?thesis by simp
      next
        case 2
        from un have "a \<notin> field_region h a name" by (simp add: unshared_field_def)
        then have "\<forall>c\<in>field_region h a name. object_at h2 c = object_at h1 c"
          unfolding 2 by (auto intro!: object_at_Clear_other)
        with I s2 False 2 show ?thesis by (simp add: Get_inplace_Clear_other)
      next
        case 3
        from I have s: "shrinks h h1" by simp
        from shrinks_Get_inplace[OF s, of a x] 3(1) have "Get_inplace h a x = Some v" by auto
        from others_region_field[OF this False] reach_shrinks[OF s, of "hrefs v"]
        have sub: "reach h1 (hrefs v) \<subseteq> others_region h a name" by blast
        from 3(2) have fr: "\<And>c. c \<notin> reach h1 (hrefs v) \<Longrightarrow> object_at h2 c = object_at h1 c"
          by (simp add: changes_within_def)
        from un sub have "a \<notin> reach h1 (hrefs v)" by (auto simp: unshared_field_def)
        from fr[OF this] have "Get_inplace h2 a name = Get_inplace h1 a name"
          by (simp add: Get_inplace_def)
        moreover have "\<forall>c\<in>field_region h a name. object_at h2 c = object_at h1 c"
          using un sub fr by (auto simp: unshared_field_def)
        ultimately show ?thesis using I s2 by simp
      qed
    qed
  qed
  then show ?thesis by simp
qed

lemma for_each_field_cleared:
  assumes st: "field_step f a"
    and fe: "for_each f names h = Inr h'"
    and mem: "name \<in> set names \<or> Get_inplace h a name = None"
    and own: "\<And>h1 h2. f name h1 = Inr h2 \<Longrightarrow> Get_inplace h2 a name = None"
  shows "Get_inplace h' a name = None"
proof (rule for_each_establish[where J = "\<lambda>_. True" and Q = "\<lambda>h1. Get_inplace h1 a name = None"
      and ?x0.0 = name, OF fe])
  from mem show "(True \<and> name \<in> set names) \<or> Get_inplace h a name = None" by simp
next
  fix x h1 h2
  assume "Get_inplace h1 a name = None" and "f x h1 = Inr h2"
  with field_step_shrinks[OF st] show "Get_inplace h2 a name = None"
    by (blast intro: shrinks_Get_inplace_None)
next
  fix h1 h2
  assume "f name h1 = Inr h2"
  then show "Get_inplace h2 a name = None" by (rule own)
qed simp

lemma Filter_field_inplace_leaf:
  assumes "fmlookup (children msk) name = Some m" and "children m = fmempty"
    and "Filter_field_inplace msk a name h1 = Inr h2"
  shows "h2 = h1"
  using assms by (auto simp: Filter_field_inplace_def split: option.splits)

lemma Filter_field_inplace_absent_cleared:
  assumes "fmlookup (children msk) name = None"
    and "Filter_field_inplace msk a name h1 = Inr h2"
  shows "Get_inplace h2 a name = None"
  using assms by (auto simp: Filter_field_inplace_def Get_inplace_Clear split: option.splits)

lemma Prune_field_inplace_leaf_cleared:
  assumes "fmlookup (children msk) name = Some m" and "children m = fmempty"
    and "Prune_field_inplace msk a name h1 = Inr h2"
  shows "Get_inplace h2 a name = None"
  using assms by (auto simp: Prune_field_inplace_def Get_inplace_Clear split: option.splits)

lemma NestedMask_Filter_inplace_fields:
  assumes "children msk \<noteq> fmempty" and "NestedMask_Filter_inplace msk a h = Inr h'"
  shows "(\<exists>fs. object_at h a = Some (OMessage fs)
            \<and> for_each (Filter_field_inplace msk a) (map fst fs) h = Inr h')
         \<or> (h' = h \<and> (\<forall>name. Get_inplace h a name = None))"
  using assms
  by (auto simp: NestedMask_Filter_inplace_unfold Get_inplace_def split: option.splits object.splits)

lemma NestedMask_Prune_inplace_fields:
  assumes "children msk \<noteq> fmempty" and "NestedMask_Prune_inplace msk a h = Inr h'"
  shows "(\<exists>fs. object_at h a = Some (OMessage fs)
            \<and> for_each (Prune_field_inplace msk a) (map fst fs) h = Inr h')
         \<or> (h' = h \<and> (\<forall>name. Get_inplace h a name = None))"
  using assms
  by (auto simp: NestedMask_Prune_inplace_unfold Get_inplace_def split: option.splits object.splits)

subsection \<open>The calls that return\<close>

text \<open>
  The two methods return on every store whose lists hold messages: the only panic is
  \<^verbatim>\<open>list.Get(i).Message()\<close> on a list of scalars.
\<close>

lemma sub_object_lists_hold_messages:
  "sub_object ob' ob \<Longrightarrow> object_lists_hold_messages ob \<Longrightarrow> object_lists_hold_messages ob'"
  by (cases ob; cases ob') (auto simp: list_all_iff dest: dropped_set)

lemma shrinks_lists_hold_messages:
  assumes "shrinks h h'" and "lists_hold_messages_inplace h"
  shows "lists_hold_messages_inplace h'"
  unfolding lists_hold_messages_inplace_def list_all_length
proof (intro allI impI)
  fix n
  assume "n < length h'"
  with assms(1) have n: "n < length h" and "sub_object (h' ! n) (h ! n)"
    by (simp_all add: shrinks_def)
  moreover from assms(2) n have "object_lists_hold_messages (h ! n)"
    by (simp add: lists_hold_messages_inplace_def list_all_length)
  ultimately show "object_lists_hold_messages (h' ! n)"
    by (blast intro: sub_object_lists_hold_messages)
qed

lemma Get_inplace_lists_hold_messages:
  assumes "lists_hold_messages_inplace h" and "Get_inplace h a name = Some (HList l)"
    and "x \<in> set l"
  shows "\<exists>kd i. x = HMessage kd i"
proof -
  from assms(2) obtain fs where fs: "object_at h a = Some (OMessage fs)"
    and mem: "(name, HList l) \<in> set fs"
    by (auto simp: Get_inplace_def split: option.splits object.splits dest!: map_of_SomeD)
  from fs have "a < length h" and "h ! a = OMessage fs"
    by (auto simp: object_at_def split: if_splits)
  with assms(1) have "object_lists_hold_messages (OMessage fs)"
    by (auto simp: lists_hold_messages_inplace_def list_all_length)
  with mem have "value_lists_hold_messages_inplace (HList l)"
    by (auto simp: list_all_iff)
  with assms(3) have "case x of HMessage kd i \<Rightarrow> True | _ \<Rightarrow> False"
    by (auto simp: list_all_iff)
  then show ?thesis by (auto split: hvalue.splits)
qed

lemma NestedMask_Filter_inplace_returns:
  "lists_hold_messages_inplace h \<Longrightarrow> \<exists>h'. NestedMask_Filter_inplace msk a h = Inr h'"
proof (induction "size msk" arbitrary: msk a h rule: less_induct)
  case less
  note IH = less.hyps and ok = less.prems
  have rec: "\<exists>h2. NestedMask_Filter_inplace m i h1 = Inr h2 \<and> shrinks h1 h2"
    if "size m < size msk" and "shrinks h h1" for m i h1
  proof -
    from shrinks_lists_hold_messages[OF that(2) ok] have "lists_hold_messages_inplace h1" .
    from IH[OF that(1) this] obtain h2 where "NestedMask_Filter_inplace m i h1 = Inr h2" by auto
    with NestedMask_Filter_inplace_shrinks show ?thesis by auto
  qed
  show ?case
  proof (cases "children msk = fmempty \<or> (\<forall>fs. object_at h a \<noteq> Some (OMessage fs))")
    case True
    then show ?thesis
      by (auto simp: NestedMask_Filter_inplace_unfold split: option.splits object.splits)
  next
    case False
    then obtain fs where ne: "children msk \<noteq> fmempty"
      and fs: "object_at h a = Some (OMessage fs)" by blast
    have "\<exists>h'. for_each (Filter_field_inplace msk a) (map fst fs) h = Inr h'"
    proof (rule for_each_returns[OF shrinks_refl], intro allI impI)
      fix name h1
      assume "name \<in> set (map fst fs) \<and> shrinks h h1"
      then have s1: "shrinks h h1" by simp
      from shrinks_lists_hold_messages[OF s1 ok] have ok1: "lists_hold_messages_inplace h1" .
      have "\<exists>h2. Filter_field_inplace msk a name h1 = Inr h2"
      proof (cases "Get_inplace h1 a name")
        case None
        then show ?thesis by (simp add: Filter_field_inplace_def)
      next
        case (Some v)
        show ?thesis
        proof (cases "fmlookup (children msk) name")
          case None
          with Some show ?thesis by (simp add: Filter_field_inplace_def)
        next
          case m: (Some m)
          from size_child[OF m] have szm: "size m < size msk" .
          show ?thesis
          proof (cases "children m = fmempty")
            case True
            with Some m show ?thesis by (simp add: Filter_field_inplace_def)
          next
            case nonleaf: False
            show ?thesis
            proof (cases v)
              case (HScalar sc)
              with Some m nonleaf show ?thesis by (simp add: Filter_field_inplace_def)
            next
              case (HMessage kd i)
              with Some m nonleaf rec[OF szm s1, of i] show ?thesis
                by (auto simp: Filter_field_inplace_def)
            next
              case (HList l)
              have "\<exists>h2. for_each (Filter_elem_inplace m) l h1 = Inr h2"
              proof (rule for_each_returns[OF shrinks_refl], intro allI impI)
                fix x h3
                assume x: "x \<in> set l \<and> shrinks h1 h3"
                with s1 have s3: "shrinks h h3" by (auto intro: shrinks_trans)
                from Get_inplace_lists_hold_messages[OF ok1] Some HList x
                obtain kd i where "x = HMessage kd i" by blast
                with rec[OF szm s3, of i]
                show "\<exists>h4. Filter_elem_inplace m x h3 = Inr h4 \<and> shrinks h3 h4"
                  by (simp add: Filter_elem_inplace_def)
              qed
              with Some m nonleaf HList show ?thesis by (simp add: Filter_field_inplace_def)
            next
              case (HMap xmap)
              show ?thesis
              proof (cases "\<exists>es. object_at h1 xmap = Some (OMap es)")
                case False
                with Some m nonleaf HMap show ?thesis
                  by (auto simp: Filter_field_inplace_def split: option.splits object.splits)
              next
                case True
                then obtain es where es: "object_at h1 xmap = Some (OMap es)" by blast
                have "\<exists>h2. for_each (Filter_entry_inplace m xmap) (map fst es) h1 = Inr h2"
                proof (rule for_each_returns[OF shrinks_refl], intro allI impI)
                  fix mk h3
                  assume "mk \<in> set (map fst es) \<and> shrinks h1 h3"
                  with s1 have s3: "shrinks h h3" by (auto intro: shrinks_trans)
                  have "\<exists>h4. Filter_entry_inplace m xmap mk h3 = Inr h4"
                  proof (cases "Map_Get h3 xmap mk")
                    case None
                    then show ?thesis by (simp add: Filter_entry_inplace_def)
                  next
                    case mv: (Some mv)
                    show ?thesis
                    proof (cases "fmlookup (children m) (MapKey_String mk)")
                      case None
                      with mv show ?thesis by (simp add: Filter_entry_inplace_def)
                    next
                      case mi: (Some mi)
                      from size_child[OF mi] szm have "size mi < size msk" by simp
                      from rec[OF this s3] mv mi show ?thesis
                        by (cases mv) (auto simp: Filter_entry_inplace_def)
                    qed
                  qed
                  with Filter_entry_inplace_shrinks
                  show "\<exists>h4. Filter_entry_inplace m xmap mk h3 = Inr h4 \<and> shrinks h3 h4"
                    by auto
                qed
                with Some m nonleaf HMap es show ?thesis by (simp add: Filter_field_inplace_def)
              qed
            qed
          qed
        qed
      qed
      with field_step_shrinks[OF field_step_Filter]
      show "\<exists>h2. Filter_field_inplace msk a name h1 = Inr h2 \<and> shrinks h1 h2" by auto
    qed
    with ne fs show ?thesis by (simp add: NestedMask_Filter_inplace_unfold)
  qed
qed

lemma NestedMask_Prune_inplace_returns:
  "lists_hold_messages_inplace h \<Longrightarrow> \<exists>h'. NestedMask_Prune_inplace msk a h = Inr h'"
proof (induction "size msk" arbitrary: msk a h rule: less_induct)
  case less
  note IH = less.hyps and ok = less.prems
  have rec: "\<exists>h2. NestedMask_Prune_inplace m i h1 = Inr h2 \<and> shrinks h1 h2"
    if "size m < size msk" and "shrinks h h1" for m i h1
  proof -
    from shrinks_lists_hold_messages[OF that(2) ok] have "lists_hold_messages_inplace h1" .
    from IH[OF that(1) this] obtain h2 where "NestedMask_Prune_inplace m i h1 = Inr h2" by auto
    with NestedMask_Prune_inplace_shrinks show ?thesis by auto
  qed
  show ?case
  proof (cases "children msk = fmempty \<or> (\<forall>fs. object_at h a \<noteq> Some (OMessage fs))")
    case True
    then show ?thesis
      by (auto simp: NestedMask_Prune_inplace_unfold split: option.splits object.splits)
  next
    case False
    then obtain fs where ne: "children msk \<noteq> fmempty"
      and fs: "object_at h a = Some (OMessage fs)" by blast
    have "\<exists>h'. for_each (Prune_field_inplace msk a) (map fst fs) h = Inr h'"
    proof (rule for_each_returns[OF shrinks_refl], intro allI impI)
      fix name h1
      assume "name \<in> set (map fst fs) \<and> shrinks h h1"
      then have s1: "shrinks h h1" by simp
      from shrinks_lists_hold_messages[OF s1 ok] have ok1: "lists_hold_messages_inplace h1" .
      have "\<exists>h2. Prune_field_inplace msk a name h1 = Inr h2"
      proof (cases "Get_inplace h1 a name")
        case None
        then show ?thesis by (simp add: Prune_field_inplace_def)
      next
        case (Some v)
        show ?thesis
        proof (cases "fmlookup (children msk) name")
          case None
          with Some show ?thesis by (simp add: Prune_field_inplace_def)
        next
          case m: (Some m)
          from size_child[OF m] have szm: "size m < size msk" .
          show ?thesis
          proof (cases "children m = fmempty")
            case True
            with Some m show ?thesis by (simp add: Prune_field_inplace_def)
          next
            case nonleaf: False
            show ?thesis
            proof (cases v)
              case (HScalar sc)
              with Some m nonleaf show ?thesis by (simp add: Prune_field_inplace_def)
            next
              case (HMessage kd i)
              with Some m nonleaf rec[OF szm s1, of i] show ?thesis
                by (auto simp: Prune_field_inplace_def)
            next
              case (HList l)
              have "\<exists>h2. for_each (Prune_elem_inplace m) l h1 = Inr h2"
              proof (rule for_each_returns[OF shrinks_refl], intro allI impI)
                fix x h3
                assume x: "x \<in> set l \<and> shrinks h1 h3"
                with s1 have s3: "shrinks h h3" by (auto intro: shrinks_trans)
                from Get_inplace_lists_hold_messages[OF ok1] Some HList x
                obtain kd i where "x = HMessage kd i" by blast
                with rec[OF szm s3, of i]
                show "\<exists>h4. Prune_elem_inplace m x h3 = Inr h4 \<and> shrinks h3 h4"
                  by (simp add: Prune_elem_inplace_def)
              qed
              with Some m nonleaf HList show ?thesis by (simp add: Prune_field_inplace_def)
            next
              case (HMap xmap)
              show ?thesis
              proof (cases "\<exists>es. object_at h1 xmap = Some (OMap es)")
                case False
                with Some m nonleaf HMap show ?thesis
                  by (auto simp: Prune_field_inplace_def split: option.splits object.splits)
              next
                case True
                then obtain es where es: "object_at h1 xmap = Some (OMap es)" by blast
                have "\<exists>h2. for_each (Prune_entry_inplace m xmap) (map fst es) h1 = Inr h2"
                proof (rule for_each_returns[OF shrinks_refl], intro allI impI)
                  fix mk h3
                  assume "mk \<in> set (map fst es) \<and> shrinks h1 h3"
                  with s1 have s3: "shrinks h h3" by (auto intro: shrinks_trans)
                  have "\<exists>h4. Prune_entry_inplace m xmap mk h3 = Inr h4"
                  proof (cases "Map_Get h3 xmap mk")
                    case None
                    then show ?thesis by (simp add: Prune_entry_inplace_def)
                  next
                    case mv: (Some mv)
                    show ?thesis
                    proof (cases "fmlookup (children m) (MapKey_String mk)")
                      case None
                      with mv show ?thesis by (simp add: Prune_entry_inplace_def)
                    next
                      case mi: (Some mi)
                      from size_child[OF mi] szm have "size mi < size msk" by simp
                      from rec[OF this s3] mv mi show ?thesis
                        by (cases mv) (auto simp: Prune_entry_inplace_def)
                    qed
                  qed
                  with Prune_entry_inplace_shrinks
                  show "\<exists>h4. Prune_entry_inplace m xmap mk h3 = Inr h4 \<and> shrinks h3 h4"
                    by auto
                qed
                with Some m nonleaf HMap es show ?thesis by (simp add: Prune_field_inplace_def)
              qed
            qed
          qed
        qed
      qed
      with field_step_shrinks[OF field_step_Prune]
      show "\<exists>h2. Prune_field_inplace msk a name h1 = Inr h2 \<and> shrinks h1 h2" by auto
    qed
    with ne fs show ?thesis by (simp add: NestedMask_Prune_inplace_unfold)
  qed
qed

subsection \<open>Reading a value from the store\<close>

text \<open>
  The value read at a reference depends only on the objects reached from it.
\<close>

lemma load_frame:
  assumes "\<forall>c\<in>reach h (hrefs v). object_at h' c = object_at h c"
  shows "load d h' v = load d h v"
  using assms
proof (induction d arbitrary: v)
  case 0
  show ?case by simp
next
  case (Suc d)
  show ?case
  proof (cases v)
    case (HScalar s)
    then show ?thesis by simp
  next
    case (HMessage kd a)
    have a: "a \<in> reach h (hrefs v)" by (simp add: HMessage reach.start)
    with Suc.prems have eq: "object_at h' a = object_at h a" by blast
    show ?thesis
    proof (cases "object_at h a")
      case None
      with eq HMessage show ?thesis by simp
    next
      case (Some ob)
      show ?thesis
      proof (cases ob)
        case (OMessage fs)
        have "load d h' (snd x) = load d h (snd x)" if "x \<in> set fs" for x
        proof (rule Suc.IH)
          from that have "hrefs (snd x) \<subseteq> orefs ob" by (auto simp: OMessage)
          from reach_field_subset[OF a Some this] Suc.prems
          show "\<forall>c\<in>reach h (hrefs (snd x)). object_at h' c = object_at h c" by blast
        qed
        then have "map (\<lambda>x. map_option (Pair (fst x)) (load d h' (snd x))) fs
                 = map (\<lambda>x. map_option (Pair (fst x)) (load d h (snd x))) fs"
          by simp
        with eq Some OMessage HMessage show ?thesis by (simp del: map_eq_conv)
      next
        case (OMap es)
        with eq Some HMessage show ?thesis by simp
      qed
    qed
  next
    case (HList l)
    have "load d h' x = load d h x" if "x \<in> set l" for x
    proof (rule Suc.IH)
      from that have "hrefs x \<subseteq> hrefs v" by (auto simp: HList)
      from reach_mono[OF this] Suc.prems
      show "\<forall>c\<in>reach h (hrefs x). object_at h' c = object_at h c" by blast
    qed
    then have "map (load d h') l = map (load d h) l" by simp
    with HList show ?thesis by (simp del: map_eq_conv)
  next
    case (HMap a)
    have a: "a \<in> reach h (hrefs v)" by (simp add: HMap reach.start)
    with Suc.prems have eq: "object_at h' a = object_at h a" by blast
    show ?thesis
    proof (cases "object_at h a")
      case None
      with eq HMap show ?thesis by simp
    next
      case (Some ob)
      show ?thesis
      proof (cases ob)
        case (OMap es)
        have "load d h' (snd x) = load d h (snd x)" if "x \<in> set es" for x
        proof (rule Suc.IH)
          from that have "hrefs (snd x) \<subseteq> orefs ob" by (auto simp: OMap)
          from reach_field_subset[OF a Some this] Suc.prems
          show "\<forall>c\<in>reach h (hrefs (snd x)). object_at h' c = object_at h c" by blast
        qed
        then have "map (\<lambda>x. map_option (Pair (fst x)) (load d h' (snd x))) es
                 = map (\<lambda>x. map_option (Pair (fst x)) (load d h (snd x))) es"
          by simp
        with eq Some OMap HMap show ?thesis by (simp del: map_eq_conv)
      next
        case (OMessage fs)
        with eq Some HMap show ?thesis by simp
      qed
    qed
  qed
qed

lemma load_field_region:
  assumes "Get_inplace h a name = Some v"
    and "\<forall>c\<in>field_region h a name. object_at h' c = object_at h c"
  shows "load d h' v = load d h v"
  using assms by (intro load_frame) (simp add: field_region_def)

text \<open>
  The stores of the examples hold the messages they are named after.
\<close>

lemma load_examples:
  "load 3 profile_heap (HMessage MessageKind 0) = Some (VMessage MessageKind example_profile)"
  "load 4 shared_photo (HMessage MessageKind 0) = Some (VMessage MessageKind (Message
     [(''photo'', VMessage MessageKind (Message [(''id'', VScalar (SInt 1)), (''path'', VScalar (SString ''p''))])),
      (''gallery'', VList [VMessage MessageKind (Message [(''id'', VScalar (SInt 1)), (''path'', VScalar (SString ''p''))])])]))"
  "load 3 shared_tags (HMessage MessageKind 0) = Some (VMessage MessageKind (Message
     [(''tags'', VMap [(KString ''t1'', VScalar (SString ''1'')), (KString ''t2'', VScalar (SString ''2''))]),
      (''labels'', VMap [(KString ''t1'', VScalar (SString ''1'')), (KString ''t2'', VScalar (SString ''2''))])]))"
  by (simp_all add: profile_heap_def example_profile_def shared_photo_def shared_tags_def
      object_at_def eval_nat_numeral)

lemma profile_heap_regions:
  "field_region profile_heap 0 ''user'' \<subseteq> {1}"
  "others_region profile_heap 0 ''user'' \<subseteq> {2}"
  "field_region profile_heap 0 ''photo'' \<subseteq> {2}"
  "others_region profile_heap 0 ''photo'' \<subseteq> {1}"
  unfolding field_region_def others_region_def
  by (rule reach_bound; auto simp: profile_heap_def object_at_def Get_inplace_def split: if_splits)+

lemma profile_heap_unshared:
  "unshared_field profile_heap 0 ''user''" "unshared_field profile_heap 0 ''photo''"
  using profile_heap_regions unfolding unshared_field_def by auto

lemma profile_heap_field_region:
  "1 \<in> field_region profile_heap 0 ''user''" "2 \<in> field_region profile_heap 0 ''photo''"
  by (simp_all add: field_region_def Get_inplace_def object_at_def profile_heap_def reach.start)


section \<open>The exact engine in place: fields absent from the mask, and leaves\<close>

text \<open>
  C5 says that Filter keeps entirely a field whose mask node is a leaf. Take a message
  whose field \<open>photo\<close> and whose list \<open>gallery\<close> hold the same photo \<open>{id:1, path:"p"}\<close>,
  and the paths \<open>photo\<close> and \<open>gallery.id\<close>. The node of \<open>photo\<close> is a leaf, and Filter does
  not recurse into the field; it recurses into the element of \<open>gallery\<close>, which is the
  same object, and clears its \<open>path\<close>. After the call the field \<open>photo\<close> holds \<open>{id:1}\<close>.
\<close>

theorem Filter_shared_leaf_field_trimmed:
  "children (NestedMaskFromPaths [''photo'', ''gallery.id'']) \<noteq> fmempty
   \<and> fmlookup (children (NestedMaskFromPaths [''photo'', ''gallery.id''])) ''photo''
       = Some (NestedMask fmempty)
   \<and> Get_inplace shared_photo 0 ''photo'' = Some (HMessage MessageKind 1)
   \<and> load 2 shared_photo (HMessage MessageKind 1)
       = Some (VMessage MessageKind
           (Message [(''id'', VScalar (SInt 1)), (''path'', VScalar (SString ''p''))]))
   \<and> NestedMask_Filter_inplace (NestedMaskFromPaths [''photo'', ''gallery.id'']) 0 shared_photo
       = Inr shared_photo_trimmed
   \<and> Get_inplace shared_photo_trimmed 0 ''photo'' = Some (HMessage MessageKind 1)
   \<and> load 2 shared_photo_trimmed (HMessage MessageKind 1)
       = Some (VMessage MessageKind (Message [(''id'', VScalar (SInt 1))]))"
  by (simp add: heap_eval shared_photo_def shared_photo_trimmed_def eval_nat_numeral)

text \<open>
  C5, for fields that share no object with the other fields. With a non-empty exact
  mask, when \<open>NestedMask_Filter_inplace\<close> returns (it panics on a repeated field of
  scalars under a non-leaf mask node), a field whose name is not in the mask at this
  level is cleared. A field whose mask node is a leaf, whatever the kind of the field,
  keeps its value, and every object reached from that value is as it was, provided the
  field is unshared: no object reached from it is reached from another field of the
  message, and the message is not reached from its own fields.
\<close>

theorem NestedMask_Filter_inplace_absent_leaf:
  assumes "children msk \<noteq> fmempty" and "NestedMask_Filter_inplace msk a h = Inr h'"
  shows "(fmlookup (children msk) name = None \<longrightarrow> Get_inplace h' a name = None)
    \<and> (\<forall>m. fmlookup (children msk) name = Some m \<and> children m = fmempty
            \<and> unshared_field h a name \<longrightarrow>
          Get_inplace h' a name = Get_inplace h a name
          \<and> (\<forall>c\<in>field_region h a name. object_at h' c = object_at h c))"
proof -
  from NestedMask_Filter_inplace_fields[OF assms]
  consider fs where "object_at h a = Some (OMessage fs)"
      "for_each (Filter_field_inplace msk a) (map fst fs) h = Inr h'"
    | "h' = h" "\<forall>name. Get_inplace h a name = None"
    by blast
  then show ?thesis
  proof cases
    case 1
    have absent: "Get_inplace h' a name = None" if "fmlookup (children msk) name = None"
      using field_step_Filter 1(2) names_of_field[OF 1(1)]
    proof (rule for_each_field_cleared)
      fix h1 h2
      assume "Filter_field_inplace msk a name h1 = Inr h2"
      with that show "Get_inplace h2 a name = None" by (rule Filter_field_inplace_absent_cleared)
    qed
    have leaf: "Get_inplace h' a name = Get_inplace h a name
        \<and> (\<forall>c\<in>field_region h a name. object_at h' c = object_at h c)"
      if "fmlookup (children msk) name = Some m" and "children m = fmempty"
        and un: "unshared_field h a name" for m
      using field_step_Filter 1(2) un
    proof (rule for_each_field_kept)
      fix h1 h2
      assume "Filter_field_inplace msk a name h1 = Inr h2"
      with that(1,2) show "h2 = h1" by (rule Filter_field_inplace_leaf)
    qed
    from absent leaf show ?thesis by blast
  next
    case 2
    then show ?thesis by simp
  qed
qed

theorem NestedMask_Filter_inplace_absent_leaf_witness:
  "children (NestedMaskFromPaths [''user'']) \<noteq> fmempty
   \<and> NestedMask_Filter_inplace (NestedMaskFromPaths [''user'']) 0 profile_heap =
       Inr [OMessage [(''user'', HMessage MessageKind 1)],
            OMessage [(''id'', HScalar (SInt 1)), (''name'', HScalar (SString ''n''))],
            OMessage [(''id'', HScalar (SInt 2))]]
   \<and> fmlookup (children (NestedMaskFromPaths [''user''])) ''photo'' = None
   \<and> Get_inplace [OMessage [(''user'', HMessage MessageKind 1)],
            OMessage [(''id'', HScalar (SInt 1)), (''name'', HScalar (SString ''n''))],
            OMessage [(''id'', HScalar (SInt 2))]] 0 ''photo'' = None
   \<and> fmlookup (children (NestedMaskFromPaths [''user''])) ''user'' = Some (NestedMask fmempty)
   \<and> unshared_field profile_heap 0 ''user''
   \<and> Get_inplace [OMessage [(''user'', HMessage MessageKind 1)],
            OMessage [(''id'', HScalar (SInt 1)), (''name'', HScalar (SString ''n''))],
            OMessage [(''id'', HScalar (SInt 2))]] 0 ''user'' = Get_inplace profile_heap 0 ''user''
   \<and> object_at [OMessage [(''user'', HMessage MessageKind 1)],
            OMessage [(''id'', HScalar (SInt 1)), (''name'', HScalar (SString ''n''))],
            OMessage [(''id'', HScalar (SInt 2))]] 1 = object_at profile_heap 1"
proof -
  let ?M = "NestedMaskFromPaths [''user'']"
  let ?R = "[OMessage [(''user'', HMessage MessageKind 1)],
            OMessage [(''id'', HScalar (SInt 1)), (''name'', HScalar (SString ''n''))],
            OMessage [(''id'', HScalar (SInt 2))]]"
  have h1: "children ?M \<noteq> fmempty" by (simp add: heap_eval)
  have h2: "NestedMask_Filter_inplace ?M 0 profile_heap = Inr ?R"
    by (simp add: heap_eval profile_heap_def)
  have l1: "fmlookup (children ?M) ''photo'' = None" by (simp add: heap_eval)
  have l2: "fmlookup (children ?M) ''user'' = Some (NestedMask fmempty)" by (simp add: heap_eval)
  note t = NestedMask_Filter_inplace_absent_leaf [OF h1 h2]
  have a: "Get_inplace ?R 0 ''photo'' = None"
    using t [of "''photo''"] l1 by simp
  have b: "Get_inplace ?R 0 ''user'' = Get_inplace profile_heap 0 ''user''
      \<and> object_at ?R 1 = object_at profile_heap 1"
    using t [of "''user''"] l2 profile_heap_unshared(1) profile_heap_field_region(1) by simp
  from h1 h2 l1 l2 a b profile_heap_unshared(1) show ?thesis by (intro conjI) simp_all
qed

text \<open>
  C6 says that Prune leaves untouched a field whose name is not in the mask. Take the
  same message, with \<open>photo\<close> and the element of \<open>gallery\<close> the same object, and the path
  \<open>gallery.path\<close>. The name \<open>photo\<close> is not in the mask; Prune recurses into the element
  of \<open>gallery\<close> and clears its \<open>path\<close>. After the call the field \<open>photo\<close> holds \<open>{id:1}\<close>.
\<close>

theorem Prune_shared_absent_field_trimmed:
  "children (NestedMaskFromPaths [''gallery.path'']) \<noteq> fmempty
   \<and> fmlookup (children (NestedMaskFromPaths [''gallery.path''])) ''photo'' = None
   \<and> Get_inplace shared_photo 0 ''photo'' = Some (HMessage MessageKind 1)
   \<and> load 2 shared_photo (HMessage MessageKind 1)
       = Some (VMessage MessageKind
           (Message [(''id'', VScalar (SInt 1)), (''path'', VScalar (SString ''p''))]))
   \<and> NestedMask_Prune_inplace (NestedMaskFromPaths [''gallery.path'']) 0 shared_photo
       = Inr shared_photo_trimmed
   \<and> Get_inplace shared_photo_trimmed 0 ''photo'' = Some (HMessage MessageKind 1)
   \<and> load 2 shared_photo_trimmed (HMessage MessageKind 1)
       = Some (VMessage MessageKind (Message [(''id'', VScalar (SInt 1))]))"
  by (simp add: heap_eval shared_photo_def shared_photo_trimmed_def eval_nat_numeral)

text \<open>
  C6, for fields that share no object with the other fields. With a non-empty exact
  mask, when \<open>NestedMask_Prune_inplace\<close> returns, a field whose mask node is a leaf is
  cleared. A field whose name is not in the mask at this level keeps its value, and
  every object reached from that value is as it was, provided the field is unshared.
  For the message \<open>{user:{id:1,name:"n"}, photo:{id:2}}\<close> and the mask of the path
  \<open>user\<close>, Prune yields \<open>{photo:{id:2}}\<close>.
\<close>

theorem NestedMask_Prune_inplace_absent_leaf:
  "(children msk \<noteq> fmempty \<and> NestedMask_Prune_inplace msk a h = Inr h' \<longrightarrow>
      (fmlookup (children msk) name = None \<and> unshared_field h a name \<longrightarrow>
          Get_inplace h' a name = Get_inplace h a name
          \<and> (\<forall>c\<in>field_region h a name. object_at h' c = object_at h c))
      \<and> (\<forall>m. fmlookup (children msk) name = Some m \<and> children m = fmempty \<longrightarrow>
            Get_inplace h' a name = None))
   \<and> load 3 profile_heap (HMessage MessageKind 0) = Some (VMessage MessageKind example_profile)
   \<and> Prune_inplace 0 [''user''] profile_heap = Inr profile_pruned
   \<and> load 3 profile_pruned (HMessage MessageKind 0) =
        Some (VMessage MessageKind
          (Message [(''photo'', VMessage MessageKind (Message [(''id'', VScalar (SInt 2))]))]))"
proof (intro conjI impI)
  assume h: "children msk \<noteq> fmempty \<and> NestedMask_Prune_inplace msk a h = Inr h'"
  then have ne: "children msk \<noteq> fmempty" and r: "NestedMask_Prune_inplace msk a h = Inr h'"
    by simp_all
  from NestedMask_Prune_inplace_fields[OF ne r]
  consider fs where "object_at h a = Some (OMessage fs)"
      "for_each (Prune_field_inplace msk a) (map fst fs) h = Inr h'"
    | "h' = h" "\<forall>name. Get_inplace h a name = None"
    by blast
  note cases = this
  {
    assume that: "fmlookup (children msk) name = None \<and> unshared_field h a name"
    show "Get_inplace h' a name = Get_inplace h a name"
      and "\<forall>c\<in>field_region h a name. object_at h' c = object_at h c"
    proof -
      have "Get_inplace h' a name = Get_inplace h a name
        \<and> (\<forall>c\<in>field_region h a name. object_at h' c = object_at h c)"
      proof (rule cases)
        fix fs
        assume "object_at h a = Some (OMessage fs)"
          and fe: "for_each (Prune_field_inplace msk a) (map fst fs) h = Inr h'"
        from that have un: "unshared_field h a name" by simp
        from field_step_Prune fe un show ?thesis
        proof (rule for_each_field_kept)
          fix h1 h2
          assume "Prune_field_inplace msk a name h1 = Inr h2"
          with that show "h2 = h1" by (blast intro: Prune_field_inplace_absent)
        qed
      next
        assume "h' = h"
        then show ?thesis by simp
      qed
      then show "Get_inplace h' a name = Get_inplace h a name"
        and "\<forall>c\<in>field_region h a name. object_at h' c = object_at h c" by simp_all
    qed
  }
  show "\<forall>m. fmlookup (children msk) name = Some m \<and> children m = fmempty \<longrightarrow>
          Get_inplace h' a name = None"
  proof (intro allI impI)
    fix m
    assume that: "fmlookup (children msk) name = Some m \<and> children m = fmempty"
    show "Get_inplace h' a name = None"
    proof (rule cases)
      fix fs
      assume fs: "object_at h a = Some (OMessage fs)"
        and fe: "for_each (Prune_field_inplace msk a) (map fst fs) h = Inr h'"
      from field_step_Prune fe names_of_field[OF fs] show ?thesis
      proof (rule for_each_field_cleared)
        fix h1 h2
        assume "Prune_field_inplace msk a name h1 = Inr h2"
        with that show "Get_inplace h2 a name = None"
          by (blast intro: Prune_field_inplace_leaf_cleared)
      qed
    next
      assume "h' = h" and "\<forall>name. Get_inplace h a name = None"
      then show ?thesis by simp
    qed
  qed
next
  show "load 3 profile_heap (HMessage MessageKind 0) = Some (VMessage MessageKind example_profile)"
    by (simp add: profile_heap_def example_profile_def object_at_def eval_nat_numeral)
next
  show "Prune_inplace 0 [''user''] profile_heap = Inr profile_pruned"
    by (simp add: heap_eval profile_heap_def profile_pruned_def)
next
  show "load 3 profile_pruned (HMessage MessageKind 0) =
        Some (VMessage MessageKind
          (Message [(''photo'', VMessage MessageKind (Message [(''id'', VScalar (SInt 2))]))]))"
    by (simp add: profile_pruned_def object_at_def eval_nat_numeral)
qed

theorem NestedMask_Prune_inplace_absent_leaf_witness:
  "children (NestedMaskFromPaths [''user'']) \<noteq> fmempty
   \<and> NestedMask_Prune_inplace (NestedMaskFromPaths [''user'']) 0 profile_heap = Inr profile_pruned
   \<and> fmlookup (children (NestedMaskFromPaths [''user''])) ''photo'' = None
   \<and> unshared_field profile_heap 0 ''photo''
   \<and> Get_inplace profile_pruned 0 ''photo'' = Get_inplace profile_heap 0 ''photo''
   \<and> object_at profile_pruned 2 = object_at profile_heap 2
   \<and> fmlookup (children (NestedMaskFromPaths [''user''])) ''user'' = Some (NestedMask fmempty)
   \<and> Get_inplace profile_pruned 0 ''user'' = None"
proof -
  let ?M = "NestedMaskFromPaths [''user'']"
  have h1: "children ?M \<noteq> fmempty" by (simp add: heap_eval)
  have h2: "NestedMask_Prune_inplace ?M 0 profile_heap = Inr profile_pruned"
    by (simp add: heap_eval profile_heap_def profile_pruned_def)
  have l1: "fmlookup (children ?M) ''photo'' = None" by (simp add: heap_eval)
  have l2: "fmlookup (children ?M) ''user'' = Some (NestedMask fmempty)" by (simp add: heap_eval)
  have a: "Get_inplace profile_pruned 0 ''photo'' = Get_inplace profile_heap 0 ''photo''
      \<and> object_at profile_pruned 2 = object_at profile_heap 2"
    using NestedMask_Prune_inplace_absent_leaf [of ?M 0 profile_heap profile_pruned "''photo''"]
      h1 h2 l1 profile_heap_unshared(2) profile_heap_field_region(2) by simp
  have b: "Get_inplace profile_pruned 0 ''user'' = None"
    using NestedMask_Prune_inplace_absent_leaf [of ?M 0 profile_heap profile_pruned "''user''"]
      h1 h2 l2 by simp
  from h1 h2 l1 l2 a b profile_heap_unshared(2) show ?thesis by (intro conjI) simp_all
qed

section \<open>The exact engine in place: map entries that are not messages\<close>







section \<open>The exact engine in place: the empty mask, and Filter twice\<close>

lemma empty_mask_inplace:
  "NestedMask_Filter_inplace (NestedMask fmempty) a h = Inr h"
  "NestedMask_Prune_inplace (NestedMask fmempty) a h = Inr h"
  "Filter_inplace a [] h = Inr h" "Prune_inplace a [] h = Inr h"
  by (simp_all add: heap_eval)

text \<open>
  A store that Filter has left, and any store obtained from it by clearing more, is left
  as it is by Filter with the same mask. So Filter is idempotent in place as well,
  whatever the store shares.
\<close>

lemma NestedMask_Filter_inplace_stable:
  "NestedMask_Filter_inplace msk a h = Inr h1 \<Longrightarrow> shrinks h1 h2 \<Longrightarrow>
   NestedMask_Filter_inplace msk a h2 = Inr h2"
proof (induction "size msk" arbitrary: msk a h h1 h2 rule: less_induct)
  case less
  note IH = less.hyps
  note r = less.prems(1) and s12 = less.prems(2)
  show ?case
  proof (cases "children msk = fmempty \<or> (\<forall>fs2. object_at h2 a \<noteq> Some (OMessage fs2))")
    case True
    then show ?thesis
      by (auto simp: NestedMask_Filter_inplace_unfold split: option.splits object.splits)
  next
    case False
    then obtain fs2 where ne: "children msk \<noteq> fmempty"
      and fs2: "object_at h2 a = Some (OMessage fs2)" by blast
    from NestedMask_Filter_inplace_shrinks[OF r] have s01: "shrinks h h1" .
    from s01 s12 have s02: "shrinks h h2" by (rule shrinks_trans)
    from shrinks_object_at[OF s02 fs2] obtain fs where fs: "object_at h a = Some (OMessage fs)"
      and sub: "dropped fs2 fs"
      by (auto elim: sub_object.elims)
    from r ne fs have fe: "for_each (Filter_field_inplace msk a) (map fst fs) h = Inr h1"
      by (simp add: NestedMask_Filter_inplace_unfold)
    have stf: "\<forall>x h1 h2. Filter_field_inplace msk a x h1 = Inr h2 \<longrightarrow> shrinks h1 h2"
      using field_step_shrinks[OF field_step_Filter] by simp
    have ste: "\<forall>x h1 h2. Filter_elem_inplace m x h1 = Inr h2 \<longrightarrow> shrinks h1 h2" for m
      using Filter_elem_inplace_shrinks by simp
    have stm: "\<forall>x h1 h2. Filter_entry_inplace m xmap x h1 = Inr h2 \<longrightarrow> shrinks h1 h2"
      for m xmap
      using Filter_entry_inplace_shrinks by simp
    have "for_each (Filter_field_inplace msk a) (map fst fs2) h2 = Inr h2"
    proof (rule for_each_id)
      fix name
      assume n2: "name \<in> set (map fst fs2)"
      then obtain v where v2: "Get_inplace h2 a name = Some v"
        using fs2 by (cases "map_of fs2 name") (auto simp: Get_inplace_def map_of_eq_None_iff)
      from n2 dropped_set[OF sub] have "name \<in> set (map fst fs)" by auto
      from for_each_visited[OF fe stf this]
      obtain h3 h4 where f3: "Filter_field_inplace msk a name h3 = Inr h4"
        and s03: "shrinks h h3" and s41: "shrinks h4 h1" by (elim exE conjE)
      from s41 s12 have s42: "shrinks h4 h2" by (rule shrinks_trans)
      from field_step_shrinks[OF field_step_Filter f3] have s34: "shrinks h3 h4" .
      from s34 s42 have s32: "shrinks h3 h2" by (rule shrinks_trans)
      from shrinks_Get_inplace_Some[OF s32 v2] have v3: "Get_inplace h3 a name = Some v" .
      from shrinks_Get_inplace_Some[OF s42 v2] have v4: "Get_inplace h4 a name = Some v" .
      show "Filter_field_inplace msk a name h2 = Inr h2"
      proof (cases "fmlookup (children msk) name")
        case None
        from Filter_field_inplace_absent_cleared[OF None f3] v4 show ?thesis by simp
      next
        case (Some m)
        from size_child[OF Some] have szm: "size m < size msk" .
        show ?thesis
        proof (cases "children m = fmempty")
          case True
          with v2 Some show ?thesis by (simp add: Filter_field_inplace_def)
        next
          case nonleaf: False
          show ?thesis
          proof (cases v)
            case (HScalar sc)
            with v2 Some nonleaf show ?thesis by (simp add: Filter_field_inplace_def)
          next
            case (HMessage kd i)
            show ?thesis
            proof (cases "kd = MessageKind")
              case False
              with v2 Some nonleaf HMessage show ?thesis by (simp add: Filter_field_inplace_def)
            next
              case True
              with f3 v3 Some nonleaf HMessage
              have "NestedMask_Filter_inplace m i h3 = Inr h4"
                by (simp add: Filter_field_inplace_def)
              from IH[OF szm this s42] v2 Some nonleaf HMessage True show ?thesis
                by (simp add: Filter_field_inplace_def)
            qed
          next
            case (HList l)
            with f3 v3 Some nonleaf
            have fl: "for_each (Filter_elem_inplace m) l h3 = Inr h4"
              by (simp add: Filter_field_inplace_def)
            have "for_each (Filter_elem_inplace m) l h2 = Inr h2"
            proof (rule for_each_id)
              fix x
              assume "x \<in> set l"
              from for_each_visited[OF fl ste this]
              obtain h5 h6 where f5: "Filter_elem_inplace m x h5 = Inr h6"
                and s54: "shrinks h3 h5" and s64: "shrinks h6 h4" by (elim exE conjE)
              from s64 s42 have s62: "shrinks h6 h2" by (rule shrinks_trans)
              show "Filter_elem_inplace m x h2 = Inr h2"
              proof (cases x)
                case (HMessage kd i)
                with f5 have "NestedMask_Filter_inplace m i h5 = Inr h6"
                  by (simp add: Filter_elem_inplace_def)
                from IH[OF szm this s62] HMessage show ?thesis
                  by (simp add: Filter_elem_inplace_def)
              qed (use f5 in \<open>simp_all add: Filter_elem_inplace_def\<close>)
            qed
            with v2 Some nonleaf HList show ?thesis by (simp add: Filter_field_inplace_def)
          next
            case (HMap xmap)
            show ?thesis
            proof (cases "\<exists>es2. object_at h2 xmap = Some (OMap es2)")
              case False
              with v2 Some nonleaf HMap show ?thesis
                by (auto simp: Filter_field_inplace_def split: option.splits object.splits)
            next
              case True
              then obtain es2 where es2: "object_at h2 xmap = Some (OMap es2)" by blast
              from shrinks_object_at[OF s32 es2] obtain es3 where
                es3: "object_at h3 xmap = Some (OMap es3)" and sub3: "dropped es2 es3"
                by (auto elim: sub_object.elims)
              from f3 v3 Some nonleaf HMap es3
              have fm: "for_each (Filter_entry_inplace m xmap) (map fst es3) h3 = Inr h4"
                by (simp add: Filter_field_inplace_def)
              have "for_each (Filter_entry_inplace m xmap) (map fst es2) h2 = Inr h2"
              proof (rule for_each_id)
                fix mk
                assume k2: "mk \<in> set (map fst es2)"
                then obtain mv where g2: "Map_Get h2 xmap mk = Some mv"
                  using es2 by (cases "map_of es2 mk") (auto simp: Map_Get_def map_of_eq_None_iff)
                from k2 dropped_set[OF sub3] have "mk \<in> set (map fst es3)" by auto
                from for_each_visited[OF fm stm this]
                obtain h5 h6 where f5: "Filter_entry_inplace m xmap mk h5 = Inr h6"
                  and s54: "shrinks h3 h5" and s64: "shrinks h6 h4" by (elim exE conjE)
                from s64 s42 have s62: "shrinks h6 h2" by (rule shrinks_trans)
                from Filter_entry_inplace_shrinks[OF f5] s62 have s52: "shrinks h5 h2"
                  by (rule shrinks_trans)
                from shrinks_Map_Get_Some[OF s52 g2] have g5: "Map_Get h5 xmap mk = Some mv" .
                from shrinks_Map_Get_Some[OF s62 g2] have g6: "Map_Get h6 xmap mk = Some mv" .
                show "Filter_entry_inplace m xmap mk h2 = Inr h2"
                proof (cases "fmlookup (children m) (MapKey_String mk)")
                  case None
                  with f5 g5 have "h6 = Map_Clear h5 xmap mk"
                    by (simp add: Filter_entry_inplace_def)
                  with g6 show ?thesis by (simp add: Map_Get_Map_Clear)
                next
                  case mi: (Some mi)
                  from size_child[OF mi] szm have szi: "size mi < size msk" by simp
                  show ?thesis
                  proof (cases "\<exists>kd i. mv = HMessage kd i \<and> children mi \<noteq> fmempty")
                    case False
                    with g2 mi show ?thesis
                      by (cases mv) (auto simp: Filter_entry_inplace_def)
                  next
                    case True
                    then obtain kd i where mv: "mv = HMessage kd i"
                      and nl: "children mi \<noteq> fmempty" by blast
                    with f5 g5 mi have "NestedMask_Filter_inplace mi i h5 = Inr h6"
                      by (simp add: Filter_entry_inplace_def)
                    from IH[OF szi this s62] g2 mi mv nl show ?thesis
                      by (simp add: Filter_entry_inplace_def)
                  qed
                qed
              qed
              with v2 Some nonleaf HMap es2 show ?thesis by (simp add: Filter_field_inplace_def)
            qed
          qed
        qed
      qed
    qed
    with ne fs2 show ?thesis by (simp add: NestedMask_Filter_inplace_unfold)
  qed
qed

lemma NestedMask_Filter_inplace_idem:
  "(case NestedMask_Filter_inplace M a h of Inl e \<Rightarrow> Inl e
     | Inr h' \<Rightarrow> NestedMask_Filter_inplace M a h') = NestedMask_Filter_inplace M a h"
  by (cases "NestedMask_Filter_inplace M a h")
    (simp_all add: NestedMask_Filter_inplace_stable shrinks_refl)

section \<open>The wildcard engine: what the functions compute\<close>

lemma WildcardNestedMask_Filter_fields:
  "WildcardNestedMask_Filter msk (Message fs) =
     (if children msk = fmempty then Inr (Message fs)
      else map_sum id Message (Range_iter (Wildcard_Filter_field msk) fs))"
  unfolding Wildcard_Filter_field_def
  by (rule WildcardNestedMask_Filter.simps)

lemma filterField_cases:
  "filterField msk (name, v) wildcard pruning =
     (case fmlookup (children msk) (if wildcard then ''*'' else name) of
        Some m \<Rightarrow>
          if children m = fmempty then Inr (True, (name, v))
          else (case v of
            VMap xmap \<Rightarrow>
              (case Range_iter (filterField_entry msk pruning) xmap of
                 Inl e \<Rightarrow> Inl e
               | Inr xmap' \<Rightarrow> Inr (True, (name, VMap xmap')))
          | VList l \<Rightarrow>
              (case Range_iter (filterField_elem m) l of
                 Inl e \<Rightarrow> Inl e
               | Inr l' \<Rightarrow> Inr (True, (name, VList l')))
          | VMessage kd i \<Rightarrow>
              if kd = MessageKind then
                (case WildcardNestedMask_Filter m i of
                   Inl e \<Rightarrow> Inl e
                 | Inr i' \<Rightarrow> Inr (True, (name, VMessage kd i')))
              else Inr (True, (name, v))
          | VScalar s \<Rightarrow> Inr (True, (name, v)))
      | None \<Rightarrow> Inr (True, (name, v)))"
  unfolding filterField_entry_def filterField_elem_def
  by (simp only: filterField.simps Let_def)

lemmas wildcard_eval =
  WildcardFilter_def WildcardPrune_def WildcardNestedMaskFromPaths_def
  WildcardNestedMask_Filter.simps WildcardNestedMask_Prune_def
  filterField.simps filterMapKey.simps Let_def fmupd_not_empty

declare WildcardNestedMask_Filter.simps [simp del]
declare filterField.simps [simp del]
declare filterMapKey.simps [simp del]

lemma filterField_true: "filterField msk fd w p = Inr (r, fd') \<Longrightarrow> r"
  by (cases fd) (auto simp: filterField_cases split: option.splits if_splits Value.splits sum.splits)

lemma filterMapKey_true: "filterMapKey msk kv w = Inr (r, kv') \<Longrightarrow> r"
  by (cases kv)
    (auto simp: filterMapKey.simps Let_def split: option.splits if_splits Value.splits sum.splits)

section \<open>The empty mask\<close>

text \<open>
  C7. With an empty mask, Filter and Prune return at once: the message is left as it is,
  in the exact engine and in the wildcard engine. In place, the exact engine leaves the
  whole store as it is.
\<close>

theorem empty_mask_identity:
  "NestedMask_Filter (NestedMask fmempty) X = Inr X
   \<and> NestedMask_Prune (NestedMask fmempty) X = Inr X
   \<and> WildcardNestedMask_Filter (NestedMask fmempty) X = Inr X
   \<and> WildcardNestedMask_Prune (NestedMask fmempty) X = Inr X
   \<and> Filter X [] = Inr X \<and> Prune X [] = Inr X
   \<and> WildcardFilter X [] = Inr X \<and> WildcardPrune X [] = Inr X
   \<and> NestedMask_Filter_inplace (NestedMask fmempty) a h = Inr h
   \<and> NestedMask_Prune_inplace (NestedMask fmempty) a h = Inr h
   \<and> Filter_inplace a [] h = Inr h \<and> Prune_inplace a [] h = Inr h"
  by (cases X)
    (simp add: NestedMask_Filter_fields NestedMask_Prune_fields WildcardNestedMask_Filter_fields
      WildcardNestedMask_Prune_def Filter_def Prune_def WildcardFilter_def
      WildcardPrune_def NestedMaskFromPaths_def WildcardNestedMaskFromPaths_def
      empty_mask_inplace)

section \<open>Idempotence of Filter\<close>

lemma Filter_elem_idem:
  assumes IH: "\<And>kd i i'. VMessage kd i \<in> set l \<Longrightarrow> NestedMask_Filter m i = Inr i' \<Longrightarrow>
                 NestedMask_Filter m i' = Inr i'"
    and r: "Range_iter (Filter_elem m) l = Inr l'"
  shows "Range_iter (Filter_elem m) l' = Inr l'"
  using r
proof (rule Range_iter_idem)
  fix x c y
  assume x: "x \<in> set l" and f: "Filter_elem m x = Inr (c, y)"
  from f obtain kd i where xi: "x = VMessage kd i"
    by (auto simp: Filter_elem_def split: Value.splits)
  with f obtain i' where fi: "NestedMask_Filter m i = Inr i'"
    and c: "c" and y: "y = Some (VMessage kd i')"
    by (auto simp: Filter_elem_def split: sum.splits)
  from x xi have "VMessage kd i \<in> set l" by simp
  from IH[OF this fi] have "NestedMask_Filter m i' = Inr i'" .
  with c y show "c \<and> (\<forall>z. y = Some z \<longrightarrow> Filter_elem m z = Inr (True, Some z))"
    by (simp add: Filter_elem_def)
qed

lemma Filter_entry_idem:
  assumes IH: "\<And>mk kd i mi i'. (mk, VMessage kd i) \<in> set xmap \<Longrightarrow> NestedMask_Filter mi i = Inr i' \<Longrightarrow>
                 NestedMask_Filter mi i' = Inr i'"
    and r: "Range_iter (Filter_entry m) xmap = Inr xmap'"
  shows "Range_iter (Filter_entry m) xmap' = Inr xmap'"
  using r
proof (rule Range_iter_idem)
  fix x c y
  assume x: "x \<in> set xmap" and f: "Filter_entry m x = Inr (c, y)"
  obtain mk mv where xe: "x = (mk, mv)" by (cases x)
  show "c \<and> (\<forall>z. y = Some z \<longrightarrow> Filter_entry m z = Inr (True, Some z))"
  proof (cases "fmlookup (children m) (MapKey_String mk)")
    case None
    with f xe show ?thesis by (simp add: Filter_entry_def)
  next
    case (Some mi)
    show ?thesis
    proof (cases mv)
      case (VMessage kd i)
      with x xe have "(mk, VMessage kd i) \<in> set xmap" by simp
      note ih = IH[OF this]
      from f xe Some VMessage show ?thesis
        by (auto simp: Filter_entry_def split: sum.splits if_splits dest: ih)
    qed (use f xe Some in \<open>auto simp: Filter_entry_def\<close>)
  qed
qed

lemma NestedMask_Filter_idem:
  "NestedMask_Filter msk msg = Inr msg' \<Longrightarrow> NestedMask_Filter msk msg' = Inr msg'"
proof (induction "size msg" arbitrary: msk msg msg' rule: less_induct)
  case less
  obtain fs where msg: "msg = Message fs" by (cases msg)
  show ?case
  proof (cases "children msk = fmempty")
    case True
    with less.prems msg have "msg' = Message fs" by (simp add: NestedMask_Filter_fields)
    with True show ?thesis by (simp add: NestedMask_Filter_fields)
  next
    case False
    with less.prems msg obtain fs' where r: "Range_iter (Filter_field msk) fs = Inr fs'"
      and msg': "msg' = Message fs'"
      by (auto simp: NestedMask_Filter_fields map_sum_def split: sum.splits)
    have "Range_iter (Filter_field msk) fs' = Inr fs'"
      using r
    proof (rule Range_iter_idem)
      fix x c y
      assume x: "x \<in> set fs" and f: "Filter_field msk x = Inr (c, y)"
      obtain n v where xe: "x = (n, v)" by (cases x)
      from x xe msg have sz: "size v < size msg" using size_field_mem[of n v fs] by simp
      show "c \<and> (\<forall>z. y = Some z \<longrightarrow> Filter_field msk z = Inr (True, Some z))"
      proof (cases "fmlookup (children msk) n")
        case None
        with f xe show ?thesis by (simp add: Filter_field_def)
      next
        case (Some m)
        show ?thesis
        proof (cases "children m = fmempty")
          case True
          with f xe Some show ?thesis by (auto simp: Filter_field_def)
        next
          case nonleaf: False
          show ?thesis
          proof (cases v)
            case (VScalar s)
            with f xe Some nonleaf show ?thesis by (auto simp: Filter_field_def)
          next
            case (VMessage kd i)
            with sz have "size i < size msg" by simp
            note ih = less.hyps[OF this]
            from f xe Some nonleaf VMessage show ?thesis
              by (auto simp: Filter_field_def split: sum.splits if_splits dest: ih)
          next
            case (VList l)
            from f xe Some nonleaf VList obtain l' where
              rl: "Range_iter (Filter_elem m) l = Inr l'" and c: "c" and y: "y = Some (n, VList l')"
              by (auto simp: Filter_field_def split: sum.splits)
            have "Range_iter (Filter_elem m) l' = Inr l'"
            proof (rule Filter_elem_idem[OF _ rl])
              fix kd i i'
              assume "VMessage kd i \<in> set l" and fi: "NestedMask_Filter m i = Inr i'"
              then have "size i < size msg" using sz VList size_elem_mem[of kd i l] by simp
              from less.hyps[OF this fi] show "NestedMask_Filter m i' = Inr i'" .
            qed
            with c y Some nonleaf show ?thesis by (simp add: Filter_field_def)
          next
            case (VMap xmap)
            from f xe Some nonleaf VMap obtain xmap' where
              rl: "Range_iter (Filter_entry m) xmap = Inr xmap'" and c: "c"
              and y: "y = Some (n, VMap xmap')"
              by (auto simp: Filter_field_def split: sum.splits)
            have "Range_iter (Filter_entry m) xmap' = Inr xmap'"
            proof (rule Filter_entry_idem[OF _ rl])
              fix mk kd i mi i'
              assume "(mk, VMessage kd i) \<in> set xmap" and fi: "NestedMask_Filter mi i = Inr i'"
              then have "size i < size msg" using sz VMap size_entry_mem[of mk kd i xmap] by simp
              from less.hyps[OF this fi] show "NestedMask_Filter mi i' = Inr i'" .
            qed
            with c y Some nonleaf show ?thesis by (simp add: Filter_field_def)
          qed
        qed
      qed
    qed
    with False msg' show ?thesis by (simp add: NestedMask_Filter_fields)
  qed
qed

text \<open>
  The wildcard Filter never clears anything: \<open>filterField\<close> and \<open>filterMapKey\<close> return
  true on every path, so the \<^verbatim>\<open>Clear\<close> calls of \<open>WildcardNestedMask_Filter\<close> and of the
  map iteration are not reached. When it returns, the message is as it was.
\<close>

lemma filterMapKey_id:
  assumes IH: "\<And>m kd i i'. mv = VMessage kd i \<Longrightarrow> WildcardNestedMask_Filter m i = Inr i' \<Longrightarrow> i' = i"
    and f: "filterMapKey msk (mk, mv) w = Inr (r, kv')"
  shows "kv' = (mk, mv)"
proof (cases mv)
  case (VMessage kd i)
  note ih = IH[OF VMessage]
  from f VMessage show ?thesis
    by (auto simp: filterMapKey.simps Let_def split: option.splits if_splits sum.splits dest: ih)
qed (use f in \<open>auto simp: filterMapKey.simps Let_def split: option.splits\<close>)

lemma filterField_entry_id:
  assumes IH: "\<And>m mk kd i i'. (mk, VMessage kd i) \<in> set xmap \<Longrightarrow>
                 WildcardNestedMask_Filter m i = Inr i' \<Longrightarrow> i' = i"
    and r: "Range_iter (filterField_entry msk False) xmap = Inr xmap'"
  shows "xmap' = xmap"
  using r
proof (rule Range_iter_id)
  fix x c y
  assume x: "x \<in> set xmap" and f: "filterField_entry msk False x = Inr (c, y)"
  obtain mk mv where xe: "x = (mk, mv)" by (cases x)
  from f xe obtain r1 kv1 where f1: "filterMapKey msk (mk, mv) False = Inr (r1, kv1)"
    by (auto simp: filterField_entry_def split: sum.splits)
  from filterMapKey_true[OF f1] have r1: "r1" .
  have "kv1 = (mk, mv)"
  proof (rule filterMapKey_id[OF _ f1])
    fix m kd i i'
    assume "mv = VMessage kd i" and "WildcardNestedMask_Filter m i = Inr i'"
    with x xe show "i' = i" using IH[of mk kd i m i'] by simp
  qed
  with f xe f1 r1 show "c \<and> y = Some x"
    by (simp add: filterField_entry_def)
qed

lemma filterField_elem_id:
  assumes IH: "\<And>kd i i'. VMessage kd i \<in> set l \<Longrightarrow> WildcardNestedMask_Filter m i = Inr i' \<Longrightarrow> i' = i"
    and r: "Range_iter (filterField_elem m) l = Inr l'"
  shows "l' = l"
  using r
proof (rule Range_iter_id)
  fix x c y
  assume x: "x \<in> set l" and f: "filterField_elem m x = Inr (c, y)"
  from f obtain kd i where xi: "x = VMessage kd i"
    by (auto simp: filterField_elem_def split: Value.splits)
  with f obtain i' where fi: "WildcardNestedMask_Filter m i = Inr i'"
    and c: "c" and y: "y = Some (VMessage kd i')"
    by (auto simp: filterField_elem_def split: sum.splits)
  from x xi have "VMessage kd i \<in> set l" by simp
  from IH[OF this fi] c y xi show "c \<and> y = Some x" by simp
qed

lemma filterField_id:
  assumes IH: "\<And>m i i'. size i < size v \<Longrightarrow> WildcardNestedMask_Filter m i = Inr i' \<Longrightarrow> i' = i"
    and f: "filterField msk (n, v) w False = Inr (r, fd')"
  shows "fd' = (n, v)"
proof (cases "fmlookup (children msk) (if w then ''*'' else n)")
  case None
  with f show ?thesis by (simp add: filterField_cases)
next
  case (Some m)
  show ?thesis
  proof (cases "children m = fmempty")
    case True
    with f Some show ?thesis by (simp add: filterField_cases)
  next
    case nonleaf: False
    show ?thesis
    proof (cases v)
      case (VScalar s)
      with f Some nonleaf show ?thesis by (simp add: filterField_cases)
    next
      case (VMessage kd i)
      then have "size i < size v" by simp
      note ih = IH[OF this]
      from f Some nonleaf VMessage show ?thesis
        by (auto simp: filterField_cases split: sum.splits if_splits dest: ih)
    next
      case (VList l)
      from f Some nonleaf VList obtain l' where
        rl: "Range_iter (filterField_elem m) l = Inr l'" and fd': "fd' = (n, VList l')"
        by (auto simp: filterField_cases split: sum.splits)
      have "l' = l"
      proof (rule filterField_elem_id[OF _ rl])
        fix kd i i'
        assume "VMessage kd i \<in> set l" and fi: "WildcardNestedMask_Filter m i = Inr i'"
        then have "size i < size v" using VList size_elem_mem[of kd i l] by simp
        from IH[OF this fi] show "i' = i" .
      qed
      with fd' VList show ?thesis by simp
    next
      case (VMap xmap)
      from f Some nonleaf VMap obtain xmap' where
        rl: "Range_iter (filterField_entry msk False) xmap = Inr xmap'"
        and fd': "fd' = (n, VMap xmap')"
        by (auto simp: filterField_cases split: sum.splits)
      have "xmap' = xmap"
      proof (rule filterField_entry_id[OF _ rl])
        fix m' mk kd i i'
        assume "(mk, VMessage kd i) \<in> set xmap" and fi: "WildcardNestedMask_Filter m' i = Inr i'"
        then have "size i < size v" using VMap size_entry_mem[of mk kd i xmap] by simp
        from IH[OF this fi] show "i' = i" .
      qed
      with fd' VMap show ?thesis by simp
    qed
  qed
qed

lemma WildcardNestedMask_Filter_id:
  "WildcardNestedMask_Filter msk msg = Inr msg' \<Longrightarrow> msg' = msg"
proof (induction "size msg" arbitrary: msk msg msg' rule: less_induct)
  case less
  obtain fs where msg: "msg = Message fs" by (cases msg)
  show ?case
  proof (cases "children msk = fmempty")
    case True
    with less.prems msg show ?thesis by (simp add: WildcardNestedMask_Filter_fields)
  next
    case False
    with less.prems msg obtain fs' where r: "Range_iter (Wildcard_Filter_field msk) fs = Inr fs'"
      and msg': "msg' = Message fs'"
      by (auto simp: WildcardNestedMask_Filter_fields map_sum_def split: sum.splits)
    have "fs' = fs"
      using r
    proof (rule Range_iter_id)
      fix x c y
      assume x: "x \<in> set fs" and f: "Wildcard_Filter_field msk x = Inr (c, y)"
      obtain n v where xe: "x = (n, v)" by (cases x)
      from x xe msg have sz: "size v < size msg" using size_field_mem[of n v fs] by simp
      from f xe obtain r1 fd1 where f1: "filterField msk (n, v) False False = Inr (r1, fd1)"
        by (auto simp: Wildcard_Filter_field_def split: sum.splits)
      from filterField_true[OF f1] have r1: "r1" .
      have "fd1 = (n, v)"
      proof (rule filterField_id[OF _ f1])
        fix m i i'
        assume "size i < size v" and fi: "WildcardNestedMask_Filter m i = Inr i'"
        with sz have "size i < size msg" by simp
        from less.hyps[OF this fi] show "i' = i" .
      qed
      with f xe f1 r1 show "c \<and> y = Some x"
        by (simp add: Wildcard_Filter_field_def)
    qed
    with msg msg' show ?thesis by simp
  qed
qed

text \<open>
  C9. Filter is idempotent, in both engines: filtering a message twice with the same mask
  gives what filtering it once gives (a panic of the first call included). For the exact
  engine this holds in place as well, on every store: the second call leaves the store
  as the first call left it.
\<close>

theorem Filter_idempotent:
  "(case NestedMask_Filter M X of Inl e \<Rightarrow> Inl e | Inr Y \<Rightarrow> NestedMask_Filter M Y)
      = NestedMask_Filter M X
   \<and> (case WildcardNestedMask_Filter W X of Inl e \<Rightarrow> Inl e | Inr Y \<Rightarrow> WildcardNestedMask_Filter W Y)
      = WildcardNestedMask_Filter W X
   \<and> (case NestedMask_Filter_inplace M a h of Inl e \<Rightarrow> Inl e
        | Inr h' \<Rightarrow> NestedMask_Filter_inplace M a h')
      = NestedMask_Filter_inplace M a h"
proof (intro conjI)
  show "(case NestedMask_Filter_inplace M a h of Inl e \<Rightarrow> Inl e
        | Inr h' \<Rightarrow> NestedMask_Filter_inplace M a h')
      = NestedMask_Filter_inplace M a h"
    by (rule NestedMask_Filter_inplace_idem)
next
  show "(case NestedMask_Filter M X of Inl e \<Rightarrow> Inl e | Inr Y \<Rightarrow> NestedMask_Filter M Y)
      = NestedMask_Filter M X"
    by (cases "NestedMask_Filter M X") (simp_all add: NestedMask_Filter_idem)
  show "(case WildcardNestedMask_Filter W X of Inl e \<Rightarrow> Inl e | Inr Y \<Rightarrow> WildcardNestedMask_Filter W Y)
      = WildcardNestedMask_Filter W X"
  proof (cases "WildcardNestedMask_Filter W X")
    case (Inl e)
    then show ?thesis by simp
  next
    case (Inr Y)
    then have "Y = X" by (rule WildcardNestedMask_Filter_id)
    with Inr show ?thesis by simp
  qed
qed

text \<open>
  The wildcard Prune clears every field, whatever the mask holds (unless it is empty):
  \<open>filterField\<close> returns true, and \<open>WildcardNestedMask_Prune\<close> clears the field then.
\<close>

lemma WildcardNestedMask_Prune_clears_all:
  assumes "children msk \<noteq> fmempty" and "WildcardNestedMask_Prune msk msg = Inr msg'"
  shows "msg' = Message []"
proof -
  let ?f = "\<lambda>fd. case filterField msk fd False True of
          Inl e \<Rightarrow> Inl e
        | Inr (r1, fd1) \<Rightarrow>
            if r1 then Inr (True, None)
            else (case filterField msk fd1 True True of
                    Inl e \<Rightarrow> Inl e
                  | Inr (r2, fd2) \<Rightarrow>
                      if r2 then Inr (True, None)
                      else Inr (False, Some fd2))"
  have none: "Range_iter ?f xs = Inr ys \<Longrightarrow> ys = []" for xs ys
  proof (induction xs arbitrary: ys)
    case Nil
    then show ?case by simp
  next
    case (Cons x xs)
    then show ?case
      by (auto split: sum.splits if_splits dest: filterField_true)
  qed
  from assms obtain fs' where "Range_iter ?f (fields msg) = Inr fs'" and "msg' = Message fs'"
    by (auto simp: WildcardNestedMask_Prune_def map_sum_def split: sum.splits)
  with none show ?thesis by simp
qed

section \<open>The wildcard engine on the documented examples\<close>

text \<open>
  C1 says that the wildcard Filter clears a field whose name matches neither a key of
  the mask nor \<open>*\<close>. With the mask of the path \<open>user\<close>, the field \<open>photo\<close> of the example
  profile matches neither. The exact Filter clears it; the wildcard Filter returns the
  message with \<open>photo\<close> in place: \<open>filterField\<close> returns true for a name that is not in the
  mask, so \<open>WildcardNestedMask_Filter\<close> goes on to the next field without reaching its
  \<^verbatim>\<open>Clear\<close>.
\<close>

theorem WildcardFilter_keeps_unlisted_field:
  "WildcardFilter example_profile [''user''] = Inr example_profile
   \<and> Get example_profile ''photo'' = Some (VMessage MessageKind (Message [(''id'', VScalar (SInt 2))]))
   \<and> fmlookup (children (WildcardNestedMaskFromPaths [''user''])) ''photo'' = None
   \<and> fmlookup (children (WildcardNestedMaskFromPaths [''user''])) ''*'' = None
   \<and> Filter example_profile [''user''] =
       Inr (Message [(''user'', VMessage MessageKind (Message
          [(''id'', VScalar (SInt 1)), (''name'', VScalar (SString ''n''))]))])"
  by (simp add: wildcard_eval exact_eval example_profile_def Get_def)

text \<open>
  C2 says that the wildcard Prune leaves untouched a field whose name matches neither a
  key of the mask nor \<open>*\<close>. With the mask of the path \<open>user\<close>, the field \<open>photo\<close> of the
  example profile matches neither. The exact Prune keeps it; the wildcard Prune clears
  it with every other field: \<open>filterField\<close> returns true for it, and
  \<open>WildcardNestedMask_Prune\<close> clears the field whenever \<open>filterField\<close> returns true.
\<close>

theorem WildcardPrune_clears_unlisted_field:
  "WildcardPrune example_profile [''user''] = Inr (Message [])
   \<and> fmlookup (children (WildcardNestedMaskFromPaths [''user''])) ''photo'' = None
   \<and> fmlookup (children (WildcardNestedMaskFromPaths [''user''])) ''*'' = None
   \<and> Prune example_profile [''user''] =
       Inr (Message [(''photo'', VMessage MessageKind (Message [(''id'', VScalar (SInt 2))]))])"
  by (simp add: wildcard_eval exact_eval example_profile_def)

text \<open>
  C3 says that the wildcard Prune, on a field matched with a non-leaf subtree that is a
  singular message, recurses into it with Prune and clears the masked sub-fields only.
  With the mask of the path \<open>user.name\<close> and a message holding the field \<open>user\<close>, the
  exact Prune does so and leaves \<open>{user:{id:1}}\<close>. In the wildcard engine, \<open>filterField\<close>
  recurses with \<open>WildcardNestedMask_Filter\<close>, which leaves the sub-message as it was, and
  \<open>WildcardNestedMask_Prune\<close> then clears the whole field. The same happens to a list of
  messages (the field \<open>gallery\<close> with the path \<open>gallery.path\<close>).
\<close>

theorem WildcardPrune_clears_matched_message:
  "WildcardPrune (Message [(''user'', VMessage MessageKind (Message
        [(''id'', VScalar (SInt 1)), (''name'', VScalar (SString ''n''))]))]) [''user.name'']
     = Inr (Message [])
   \<and> filterField (WildcardNestedMaskFromPaths [''user.name''])
        (''user'', VMessage MessageKind (Message [(''id'', VScalar (SInt 1)), (''name'', VScalar (SString ''n''))]))
        False True
      = Inr (True, (''user'', VMessage MessageKind (Message
          [(''id'', VScalar (SInt 1)), (''name'', VScalar (SString ''n''))])))
   \<and> Prune (Message [(''user'', VMessage MessageKind (Message
        [(''id'', VScalar (SInt 1)), (''name'', VScalar (SString ''n''))]))]) [''user.name'']
     = Inr (Message [(''user'', VMessage MessageKind (Message [(''id'', VScalar (SInt 1))]))])
   \<and> WildcardPrune (Message [(''gallery'', VList [VMessage MessageKind (Message
        [(''id'', VScalar (SInt 1)), (''path'', VScalar (SString ''p''))])])]) [''gallery.path'']
     = Inr (Message [])
   \<and> Prune (Message [(''gallery'', VList [VMessage MessageKind (Message
        [(''id'', VScalar (SInt 1)), (''path'', VScalar (SString ''p''))])])]) [''gallery.path'']
     = Inr (Message [(''gallery'', VList [VMessage MessageKind (Message [(''id'', VScalar (SInt 1))])])])"
  by (simp add: wildcard_eval exact_eval)

text \<open>
  C4 says that a map entry's key is resolved in the subtree of the map field, the exact
  key first and then \<open>*\<close>, and that Filter with the path \<open>attrs.*.tags.t1\<close> trims each of
  the entries \<open>a1\<close>, \<open>a2\<close>, \<open>a3\<close> of the example to \<open>{tags:{t1}}\<close>. In the code,
  \<open>filterField\<close> passes the entries to \<open>filterMapKey\<close> of the mask it was called on, not of
  the subtree of the field, and \<open>filterMapKey\<close> returns true whether the key is found or
  not, so the lookup of \<open>*\<close> is not reached and no entry is cleared: the message comes
  back with the three entries and their three tags each. With the paths \<open>attrs.*\<close> and
  \<open>attrs.a2.tags.t2\<close>, where the exact key \<open>a2\<close> should win over \<open>*\<close> and trim \<open>a2\<close> to
  \<open>{tags:{t2}}\<close>, the message comes back unchanged as well.
\<close>

theorem WildcardFilter_map_untrimmed:
  "WildcardFilter example_attrs [''attrs.*.tags.t1''] = Inr example_attrs
   \<and> WildcardFilter example_attrs [''attrs.*'', ''attrs.a2.tags.t2''] = Inr example_attrs
   \<and> filterMapKey (WildcardNestedMaskFromPaths [''attrs.*.tags.t1''])
        (KString ''a1'', VMessage MessageKind (Message [(''tags'', example_tags)])) False
      = Inr (True, (KString ''a1'', VMessage MessageKind (Message [(''tags'', example_tags)])))"
  by (simp add: wildcard_eval example_attrs_def example_tags_def)

end
